theory Spec2Isabelle
  imports Complex_Main "HOL-Library.AList"
begin

section \<open>Ore and ice arbitrage with limit orders: data model\<close>

text \<open>
  The notebook works on rows of an order book.  A row has the fields the code reads:
  \<^verbatim>\<open>type_id\<close>, \<^verbatim>\<open>location_id\<close>, \<^verbatim>\<open>buy\<close>, \<^verbatim>\<open>price\<close>, \<^verbatim>\<open>volume\<close>, \<^verbatim>\<open>min_volume\<close> and
  \<^verbatim>\<open>order_range\<close>.  Prices, fees and rates are modelled as exact rationals; volumes
  of orders are integers.  The floats of the source round where the rationals do not, so
  the properties below speak of the values as they are stored and compared, and do not
  rest on sums of money being exact.
\<close>

record order =
  type_id :: nat
  location_id :: nat
  buy :: bool
  price :: rat
  volume :: int
  min_volume :: int
  order_range :: string

text \<open>
  \<^verbatim>\<open>dict(price=..., volume=..., market=...)\<close>: one fill.  The volume of a limit fill is
  \<^verbatim>\<open>min(sell_volume, limit_order_max[..])\<close>, which need not be an integer.
\<close>

record order_record =
  rec_price :: rat
  rec_volume :: rat
  market :: bool

text \<open>
  The exceptions of the code.  \<^verbatim>\<open>RangeError\<close> stands for whatever the range check of
  the library raises.
\<close>

datatype py_error = IndexError | KeyError | ZeroDivisionError | TypeError | RangeError

text \<open>
  A snapshot is a data frame: its rows in order.  \<^verbatim>\<open>iterrows()\<close> hands out a fresh row
  object for every row, and the matcher then writes to the \<^verbatim>\<open>volume\<close> field of these
  objects.  Row objects live in a store, a list indexed by address; allocation appends.
\<close>

type_synonym addr = nat
type_synonym store = "order list"
type_synonym snapshot = "order list"

text \<open>
  \<^verbatim>\<open>TradingUtil.check_range(region, location, order_location, order_range, config)\<close>
  belongs to a library; it is a parameter.  It returns a truth value or raises.
\<close>

type_synonym range_check = "nat \<Rightarrow> nat \<Rightarrow> nat \<Rightarrow> string \<Rightarrow> py_error + bool"

section \<open>Order matcher\<close>

definition fill_amount :: "int \<Rightarrow> order \<Rightarrow> int" where
  "fill_amount want next_order = min want (volume next_order)"

definition make_record :: "order \<Rightarrow> int \<Rightarrow> order_record" where
  "make_record next_order amount =
     \<lparr>rec_price = price next_order, rec_volume = of_int amount, market = True\<rparr>"

definition consume :: "order \<Rightarrow> int \<Rightarrow> order" where
  "consume next_order amount = next_order\<lparr>volume := volume next_order - amount\<rparr>"

text \<open>
  The loop of \<^verbatim>\<open>attempt_buy_type_list\<close>.  The result is the returned list, the value of
  \<^verbatim>\<open>buy_volume\<close> when the function is left, and the store.  Falling out of the loop
  returns the empty list.
\<close>

fun buy_loop :: "int \<Rightarrow> order_record list \<Rightarrow> addr list \<Rightarrow> store
    \<Rightarrow> order_record list \<times> int \<times> store" where
  "buy_loop buy_volume potential [] h = ([], buy_volume, h)"
| "buy_loop buy_volume potential (a # rest) h =
     (if min_volume (h ! a) \<le> buy_volume \<and> 0 < volume (h ! a) then
        (if buy_volume - fill_amount buy_volume (h ! a) = 0
         then (potential @ [make_record (h ! a) (fill_amount buy_volume (h ! a))],
               buy_volume - fill_amount buy_volume (h ! a),
               h[a := consume (h ! a) (fill_amount buy_volume (h ! a))])
         else buy_loop (buy_volume - fill_amount buy_volume (h ! a))
                (potential @ [make_record (h ! a) (fill_amount buy_volume (h ! a))])
                rest
                (h[a := consume (h ! a) (fill_amount buy_volume (h ! a))]))
      else if buy_volume = 0 then (potential, buy_volume, h)
      else buy_loop buy_volume potential rest h)"

definition attempt_buy_type_list :: "int \<Rightarrow> addr list \<Rightarrow> store \<Rightarrow> order_record list \<times> store" where
  "attempt_buy_type_list buy_volume sell_order_list h =
     (case buy_loop buy_volume [] sell_order_list h of (r, left, h') \<Rightarrow> (r, h'))"

text \<open>
  The condition of \<^verbatim>\<open>attempt_sell_type_list\<close> sits in a \<^verbatim>\<open>try\<close> whose handler is
  \<^verbatim>\<open>pass\<close>: a range check that raises leaves the order untouched.
\<close>

definition sell_match :: "range_check \<Rightarrow> nat \<Rightarrow> nat \<Rightarrow> int \<Rightarrow> order \<Rightarrow> bool" where
  "sell_match cr sell_region_id sell_location_id sell_volume next_order =
     (min_volume next_order \<le> sell_volume \<and> 0 < volume next_order \<and>
      (case cr sell_region_id sell_location_id (location_id next_order) (order_range next_order) of
         Inl e \<Rightarrow> False
       | Inr ok \<Rightarrow> ok))"

fun sell_loop :: "range_check \<Rightarrow> nat \<Rightarrow> nat \<Rightarrow> int \<Rightarrow> order_record list \<Rightarrow> addr list \<Rightarrow> store
    \<Rightarrow> order_record list \<times> int \<times> store" where
  "sell_loop cr rid lid sell_volume potential [] h = ([], sell_volume, h)"
| "sell_loop cr rid lid sell_volume potential (a # rest) h =
     (if sell_match cr rid lid sell_volume (h ! a) then
        (if sell_volume - fill_amount sell_volume (h ! a) = 0
         then (potential @ [make_record (h ! a) (fill_amount sell_volume (h ! a))],
               sell_volume - fill_amount sell_volume (h ! a),
               h[a := consume (h ! a) (fill_amount sell_volume (h ! a))])
         else sell_loop cr rid lid (sell_volume - fill_amount sell_volume (h ! a))
                (potential @ [make_record (h ! a) (fill_amount sell_volume (h ! a))])
                rest
                (h[a := consume (h ! a) (fill_amount sell_volume (h ! a))]))
      else if sell_volume = 0 then (potential, sell_volume, h)
      else sell_loop cr rid lid sell_volume potential rest h)"

definition attempt_sell_type_list :: "range_check \<Rightarrow> nat \<Rightarrow> nat \<Rightarrow> int \<Rightarrow> addr list \<Rightarrow> store
    \<Rightarrow> order_record list \<times> store" where
  "attempt_sell_type_list cr sell_region_id sell_location_id sell_volume buy_order_list h =
     (case sell_loop cr sell_region_id sell_location_id sell_volume [] buy_order_list h of
        (r, left, h') \<Rightarrow> (r, h'))"

definition total_volume :: "order_record list \<Rightarrow> rat" where
  "total_volume rs = sum_list (map rec_volume rs)"

text \<open>The volume on offer in a list of orders: what the positive volume fields add up to.\<close>

definition available :: "store \<Rightarrow> addr list \<Rightarrow> int" where
  "available h as = sum_list (map (\<lambda>a. max 0 (volume (h ! a))) as)"

section \<open>Snapshot extractor\<close>

text \<open>
  \<^verbatim>\<open>[next_order[1] for next_order in by_side.iterrows()]\<close>: every row of the
  filtered frame \<^verbatim>\<open>by_side\<close> becomes a new object; the list holds their addresses.
\<close>

definition allocate :: "order list \<Rightarrow> store \<Rightarrow> addr list \<times> store" where
  "allocate rows h = ([length h ..< length h + length rows], h @ rows)"

definition sell_side :: "snapshot \<Rightarrow> nat \<Rightarrow> nat \<Rightarrow> order list" where
  "sell_side snapshot tid sid =
     (let by_type = filter (\<lambda>row. type_id row = tid) snapshot;
          by_loc = filter (\<lambda>row. location_id row = sid) by_type;
          by_side = filter (\<lambda>row. buy row = False) by_loc
      in by_side)"

definition extract_sell_orders :: "snapshot \<Rightarrow> nat \<Rightarrow> nat \<Rightarrow> store \<Rightarrow> addr list \<times> store" where
  "extract_sell_orders snapshot tid sid h = allocate (sell_side snapshot tid sid) h"

definition buy_side :: "snapshot \<Rightarrow> nat \<Rightarrow> order list" where
  "buy_side snapshot tid =
     (let by_type = filter (\<lambda>row. type_id row = tid) snapshot;
          by_side = filter (\<lambda>row. buy row = True) by_type
      in by_side)"

definition extract_buy_orders :: "snapshot \<Rightarrow> nat \<Rightarrow> store \<Rightarrow> addr list \<times> store" where
  "extract_buy_orders snapshot tid h = allocate (buy_side snapshot tid) h"

text \<open>
  \<^verbatim>\<open>compress_order_list\<close>: one entry for each price, in the order the prices are met
  (a dictionary keeps insertion order), then sorted by price.  The keys are distinct, so
  the descending sort is the ascending one reversed.
\<close>

definition add_to_order_map :: "order_record \<Rightarrow> (rat \<times> rat) list \<Rightarrow> (rat \<times> rat) list" where
  "add_to_order_map next_order order_map =
     (case map_of order_map (rec_price next_order) of
        None \<Rightarrow> AList.update (rec_price next_order) (rec_volume next_order) order_map
      | Some v \<Rightarrow> AList.update (rec_price next_order) (v + rec_volume next_order) order_map)"

definition compress_order_list :: "order_record list \<Rightarrow> bool \<Rightarrow> order_record list" where
  "compress_order_list order_list ascending =
     (let order_map = fold add_to_order_map order_list [];
          mkt = fold (\<lambda>next_order m. m \<and> market next_order) order_list True;
          orders = map (\<lambda>(k, v). \<lparr>rec_price = k, rec_volume = v, market = mkt\<rparr>) order_map
      in if ascending then sort_key rec_price orders else rev (sort_key rec_price orders))"

section \<open>Spread evaluator\<close>

record spread =
  sr_value :: rat
  best_bid :: "rat option"
  best_ask :: "rat option"

definition neutral :: spread where
  "neutral = \<lparr>sr_value = 0, best_bid = None, best_ask = None\<rparr>"

text \<open>
  The search for the best bid: the first buy order whose range check returns true.  The
  check sits in a \<^verbatim>\<open>try\<close> whose handler is \<^verbatim>\<open>pass\<close>.
\<close>

fun best_bid_search :: "range_check \<Rightarrow> nat \<Rightarrow> nat \<Rightarrow> addr list \<Rightarrow> store \<Rightarrow> rat option" where
  "best_bid_search cr rid sid [] h = None"
| "best_bid_search cr rid sid (a # rest) h =
     (case cr rid sid (location_id (h ! a)) (order_range (h ! a)) of
        Inl e \<Rightarrow> best_bid_search cr rid sid rest h
      | Inr ok \<Rightarrow> if ok then Some (price (h ! a)) else best_bid_search cr rid sid rest h)"

text \<open>
  Prices read from row objects are Python floats: dividing by a best bid of zero raises
  \<^verbatim>\<open>ZeroDivisionError\<close>, outside any handler.
\<close>

definition spread_return :: "range_check \<Rightarrow> snapshot \<Rightarrow> nat \<Rightarrow> nat \<Rightarrow> nat \<Rightarrow> store
    \<Rightarrow> py_error + (spread \<times> store)" where
  "spread_return cr snapshot tid sid rid h =
     (case extract_sell_orders snapshot tid sid h of (sell_orders, h1) \<Rightarrow>
        if length sell_orders = 0 then Inr (neutral, h1)
        else (case extract_buy_orders snapshot tid h1 of (buy_orders, h2) \<Rightarrow>
          (case best_bid_search cr rid sid buy_orders h2 of
             None \<Rightarrow> Inr (neutral, h2)
           | Some bid \<Rightarrow>
               if bid = 0 then Inl ZeroDivisionError
               else Inr (\<lparr>sr_value = (price (h1 ! (sell_orders ! 0)) - bid) / bid,
                          best_bid = Some bid,
                          best_ask = Some (price (h1 ! (sell_orders ! 0)))\<rparr>, h2))))"

section \<open>Opportunity attempter\<close>

record material =
  materialTypeID :: nat
  quantity :: int

record source_type =
  typeID :: nat
  typeName :: string
  portionSize :: int
  material_map :: "(nat \<times> material) list"

text \<open>
  Dictionaries are association lists, read with \<^const>\<open>map_of\<close>: \<^const>\<open>AList.update\<close>
  keeps the place of a key that is there and appends a new one, as assignment to a Python
  dictionary does.  The type map and the material maps are inputs; as dictionaries they
  have each key once.
\<close>

type_synonym type_map = "(nat \<times> source_type) list"

text \<open>The market summary: rows of type and daily volume.\<close>

type_synonym market_summary = "(nat \<times> int) list"

definition lookup :: "('k \<times> 'v) list \<Rightarrow> 'k \<Rightarrow> py_error + 'v" where
  "lookup m k = (case map_of m k of None \<Rightarrow> Inl KeyError | Some v \<Rightarrow> Inr v)"

text \<open>\<^verbatim>\<open>list(market_summary[market_summary.type_id == mat_type_id]['volume'])[0]\<close>\<close>

definition summary_volume :: "market_summary \<Rightarrow> nat \<Rightarrow> py_error + int" where
  "summary_volume market_summary mat_type_id =
     (case filter (\<lambda>row. fst row = mat_type_id) market_summary of
        [] \<Rightarrow> Inl IndexError
      | row # others \<Rightarrow> Inr (snd row))"

text \<open>\<^verbatim>\<open>int(x)\<close> of a float truncates towards zero.\<close>

definition py_int :: "rat \<Rightarrow> int" where
  "py_int x = (if 0 \<le> x then \<lfloor>x\<rfloor> else \<lceil>x\<rceil>)"

text \<open>\<^verbatim>\<open>np.sum([ x['price'] * x['volume'] for x in xs ])\<close>\<close>

definition order_value :: "order_record list \<Rightarrow> rat" where
  "order_value xs = sum_list (map (\<lambda>x. rec_price x * rec_volume x) xs)"

text \<open>What the loops of \<^verbatim>\<open>attempt_opportunity\<close> read and never change.\<close>

record env =
  check_range :: range_check
  region_id :: nat
  station_id :: nat
  materials :: "(nat \<times> material) list"
  required_volume :: int
  tax_rate :: rat
  efficiency :: rat
  station_tax :: rat
  broker_fee :: rat
  limit_threshold :: rat

text \<open>What they change: the store and the local variables.\<close>

record attempt_state =
  heap :: store
  sell_order_list :: "addr list"
  buy_order_map :: "(nat \<times> addr list) list"
  all_sell_orders :: "(nat \<times> order_record list) list"
  limit_order_max :: "(nat \<times> rat) list"
  spread_data :: "(nat \<times> spread) list"
  all_buy_orders :: "order_record list"
  gross_acc :: rat
  cost_acc :: rat

text \<open>The first loop: one pass for each refined material.\<close>

fun setup_materials :: "range_check \<Rightarrow> snapshot \<Rightarrow> nat \<Rightarrow> nat \<Rightarrow> market_summary \<Rightarrow> rat
    \<Rightarrow> material list \<Rightarrow> attempt_state \<Rightarrow> py_error + attempt_state" where
  "setup_materials cr snapshot rid sid ms vlimit [] st = Inr st"
| "setup_materials cr snapshot rid sid ms vlimit (next_mat # rest) st =
     (case extract_buy_orders snapshot (materialTypeID next_mat) (heap st) of (orders, h1) \<Rightarrow>
      (case summary_volume ms (materialTypeID next_mat) of
         Inl e \<Rightarrow> Inl e
       | Inr v \<Rightarrow>
          (case spread_return cr snapshot (materialTypeID next_mat) sid rid h1 of
             Inl e \<Rightarrow> Inl e
           | Inr (sr_data, h2) \<Rightarrow>
               setup_materials cr snapshot rid sid ms vlimit rest
                 (st\<lparr>heap := h2,
                     buy_order_map := AList.update (materialTypeID next_mat) orders (buy_order_map st),
                     all_sell_orders := AList.update (materialTypeID next_mat) [] (all_sell_orders st),
                     limit_order_max :=
                       AList.update (materialTypeID next_mat) (of_int v * vlimit) (limit_order_max st),
                     spread_data := AList.update (materialTypeID next_mat) sr_data (spread_data st)\<rparr>))))"

definition limit_sell :: "env \<Rightarrow> spread \<Rightarrow> bool" where
  "limit_sell E sr_data = (sr_value sr_data > limit_threshold E)"

definition gross_ratio :: "env \<Rightarrow> bool \<Rightarrow> rat" where
  "gross_ratio E by_limit = (if by_limit then 1 - tax_rate E - broker_fee E else 1 - tax_rate E)"

text \<open>
  Selling one material: the result is the flag \<^verbatim>\<open>limit_sell\<close> and the list
  \<^verbatim>\<open>sold\<close>.  A limit sale at a price of \<^verbatim>\<open>None\<close> fails with \<^verbatim>\<open>TypeError\<close> when the
  price is multiplied.
\<close>

definition sell_material :: "env \<Rightarrow> nat \<Rightarrow> attempt_state
    \<Rightarrow> py_error + (bool \<times> order_record list \<times> attempt_state)" where
  "sell_material E next_mat_id st =
     (case lookup (spread_data st) next_mat_id of
        Inl e \<Rightarrow> Inl e
      | Inr sr_data \<Rightarrow>
         (case lookup (materials E) next_mat_id of
            Inl e \<Rightarrow> Inl e
          | Inr mat \<Rightarrow>
             if limit_sell E sr_data then
               (case lookup (limit_order_max st) next_mat_id of
                  Inl e \<Rightarrow> Inl e
                | Inr budget \<Rightarrow>
                   if min (of_int (py_int (of_int (quantity mat) * efficiency E))) budget > 0 then
                     (case best_ask sr_data of
                        None \<Rightarrow> Inl TypeError
                      | Some ask \<Rightarrow>
                          Inr (True, [\<lparr>rec_price = ask,
                                  rec_volume = min (of_int (py_int (of_int (quantity mat) * efficiency E))) budget,
                                  market = False\<rparr>],
                               st\<lparr>limit_order_max :=
                                    AList.update next_mat_id
                                      (budget - min (of_int (py_int (of_int (quantity mat) * efficiency E))) budget)
                                      (limit_order_max st)\<rparr>))
                   else Inr (True, [], st))
             else
               (case lookup (buy_order_map st) next_mat_id of
                  Inl e \<Rightarrow> Inl e
                | Inr buy_order_list \<Rightarrow>
                   (case attempt_sell_type_list (check_range E) (region_id E) (station_id E)
                           (py_int (of_int (quantity mat) * efficiency E)) buy_order_list (heap st) of
                      (sold, h') \<Rightarrow> Inr (False, sold, st\<lparr>heap := h'\<rparr>)))))"

text \<open>
  The loop over the refined materials of one round.  It carries \<^verbatim>\<open>sell_orders\<close>,
  \<^verbatim>\<open>current_gross\<close> and \<^verbatim>\<open>current_cost\<close>; a material that cannot be sold sets
  \<^verbatim>\<open>sell_orders\<close> to the empty list and leaves the loop.
\<close>

fun sell_materials :: "env \<Rightarrow> nat list \<Rightarrow> (nat \<times> order_record list) list \<Rightarrow> rat \<Rightarrow> rat
    \<Rightarrow> attempt_state \<Rightarrow> py_error + ((nat \<times> order_record list) list \<times> rat \<times> rat \<times> attempt_state)" where
  "sell_materials E [] sell_orders current_gross current_cost st =
     Inr (sell_orders, current_gross, current_cost, st)"
| "sell_materials E (next_mat_id # rest) sell_orders current_gross current_cost st =
     (case sell_material E next_mat_id st of
        Inl e \<Rightarrow> Inl e
      | Inr (by_limit, sold, st') \<Rightarrow>
          if length sold = 0 then Inr ([], current_gross, current_cost, st')
          else sell_materials E rest (AList.update next_mat_id sold sell_orders)
                 (current_gross + gross_ratio E by_limit * order_value sold)
                 (current_cost + station_tax E * order_value sold)
                 st')"

text \<open>One pass of the \<^verbatim>\<open>while True\<close> loop, up to the profit check.\<close>

datatype round_outcome =
    Stop attempt_state
  | Traded "order_record list" "(nat \<times> order_record list) list" rat rat attempt_state

definition one_round :: "env \<Rightarrow> attempt_state \<Rightarrow> py_error + round_outcome" where
  "one_round E st =
     (case attempt_buy_type_list (required_volume E) (sell_order_list st) (heap st) of
        (bought, h1) \<Rightarrow>
          if length bought = 0 then Inr (Stop (st\<lparr>heap := h1\<rparr>))
          else
            (case sell_materials E (map fst (buy_order_map st)) [] 0 (order_value bought)
                    (st\<lparr>heap := h1\<rparr>) of
               Inl e \<Rightarrow> Inl e
             | Inr (sell_orders, current_gross, current_cost, st2) \<Rightarrow>
                 if length sell_orders = 0 then Inr (Stop st2)
                 else Inr (Traded bought sell_orders current_gross current_cost st2)))"

text \<open>\<^verbatim>\<open>for i in sell_orders.keys(): all_sell_orders[i].extend(sell_orders[i])\<close>\<close>

fun extend_all :: "(nat \<times> order_record list) list \<Rightarrow> (nat \<times> order_record list) list
    \<Rightarrow> py_error + (nat \<times> order_record list) list" where
  "extend_all [] every = Inr every"
| "extend_all ((i, sold) # rest) every =
     (case map_of every i of
        None \<Rightarrow> Inl KeyError
      | Some xs \<Rightarrow> extend_all rest (AList.update i (xs @ sold) every))"

text \<open>
  A committed round: the lists are extended and \<^verbatim>\<open>cost += current_cost\<close>,
  \<^verbatim>\<open>gross += current_gross\<close>.  The two additions are additions of floats in the source.
\<close>

definition commit :: "order_record list \<Rightarrow> (nat \<times> order_record list) list \<Rightarrow> rat \<Rightarrow> rat
    \<Rightarrow> attempt_state \<Rightarrow> py_error + attempt_state" where
  "commit bought sell_orders current_gross current_cost st =
     (case extend_all sell_orders (all_sell_orders st) of
        Inl e \<Rightarrow> Inl e
      | Inr every \<Rightarrow>
          Inr (st\<lparr>all_buy_orders := all_buy_orders st @ bought,
                  all_sell_orders := every,
                  cost_acc := cost_acc st + current_cost,
                  gross_acc := gross_acc st + current_gross\<rparr>))"

text \<open>
  The \<^verbatim>\<open>while True\<close> loop.  Nothing bounds the number of rounds, so the loop is a
  partial function: \<^const>\<open>None\<close> is a loop that never ends.
\<close>

partial_function (option) rounds :: "env \<Rightarrow> attempt_state \<Rightarrow> (py_error + attempt_state) option" where
  "rounds E st =
     (case one_round E st of
        Inl e \<Rightarrow> Some (Inl e)
      | Inr (Stop st') \<Rightarrow> Some (Inr st')
      | Inr (Traded bought sell_orders current_gross current_cost st') \<Rightarrow>
          if current_gross > current_cost then
            (case commit bought sell_orders current_gross current_cost st' of
               Inl e \<Rightarrow> Some (Inl e)
             | Inr st'' \<Rightarrow> rounds E st'')
          else Some (Inr st'))"

declare rounds.simps [code]

text \<open>
  The totals are numpy floats: dividing by a zero cost does not raise, it gives
  \<^verbatim>\<open>inf\<close> or \<^verbatim>\<open>nan\<close> with a warning.  \<^const>\<open>None\<close> stands for such a result.
\<close>

definition np_divide :: "rat \<Rightarrow> rat \<Rightarrow> rat option" where
  "np_divide a b = (if b = 0 then None else Some (a / b))"

record opportunity =
  gross :: rat
  cost :: rat
  profit :: rat
  margin :: "rat option"
  buy_orders :: "order_record list"
  sell_orders :: "(nat \<times> order_record list) list"

definition report :: "attempt_state \<Rightarrow> opportunity option" where
  "report st =
     (if gross_acc st > cost_acc st then
        Some \<lparr>gross = gross_acc st, cost = cost_acc st,
              profit = gross_acc st - cost_acc st,
              margin = np_divide (gross_acc st - cost_acc st) (cost_acc st),
              buy_orders = compress_order_list (all_buy_orders st) True,
              sell_orders =
                map (\<lambda>(i, xs). (i, compress_order_list xs False)) (all_sell_orders st)\<rparr>
      else None)"

text \<open>
  Everything before the \<^verbatim>\<open>while\<close> loop.  The threshold is a quotient of Python
  floats: a zero divisor raises.
\<close>

definition compute_threshold :: "rat \<Rightarrow> rat \<Rightarrow> py_error + rat" where
  "compute_threshold tax fee =
     (if 1 - tax - fee = 0 then Inl ZeroDivisionError else Inr (fee / (1 - tax - fee)))"

definition prepare :: "range_check \<Rightarrow> snapshot \<Rightarrow> nat \<Rightarrow> nat \<Rightarrow> nat \<Rightarrow> type_map \<Rightarrow> rat \<Rightarrow> rat
    \<Rightarrow> rat \<Rightarrow> rat \<Rightarrow> market_summary \<Rightarrow> rat \<Rightarrow> store \<Rightarrow> py_error + (env \<times> attempt_state)" where
  "prepare cr snapshot tid rid sid tmap tax eff stax fee ms vlimit h =
     (case compute_threshold tax fee of
        Inl e \<Rightarrow> Inl e
      | Inr threshold \<Rightarrow>
        (case lookup tmap tid of
           Inl e \<Rightarrow> Inl e
         | Inr src \<Rightarrow>
            (case extract_sell_orders snapshot tid sid h of
               (orders, h1) \<Rightarrow>
                 (case setup_materials cr snapshot rid sid ms vlimit (map snd (material_map src))
                         \<lparr>heap = h1, sell_order_list = orders, buy_order_map = [],
                          all_sell_orders = [], limit_order_max = [], spread_data = [],
                          all_buy_orders = [], gross_acc = 0, cost_acc = 0\<rparr> of
                    Inl e \<Rightarrow> Inl e
                  | Inr st \<Rightarrow>
                      Inr (\<lparr>check_range = cr, region_id = rid, station_id = sid,
                            materials = material_map src, required_volume = portionSize src,
                            tax_rate = tax, efficiency = eff, station_tax = stax,
                            broker_fee = fee, limit_threshold = threshold\<rparr>, st)))))"

text \<open>
  \<^verbatim>\<open>attempt_opportunity\<close>, with the range check as an extra first argument and the store
  as the last.  The result is \<^const>\<open>None\<close> when the loop never ends, an error, or the
  returned value (\<^verbatim>\<open>None\<close> or an opportunity) with the store.
\<close>

definition attempt_opportunity :: "range_check \<Rightarrow> snapshot \<Rightarrow> nat \<Rightarrow> nat \<Rightarrow> nat \<Rightarrow> type_map
    \<Rightarrow> rat \<Rightarrow> rat \<Rightarrow> rat \<Rightarrow> rat \<Rightarrow> market_summary \<Rightarrow> rat \<Rightarrow> store
    \<Rightarrow> (py_error + (opportunity option \<times> store)) option" where
  "attempt_opportunity cr snapshot tid rid sid tmap tax eff stax fee ms vlimit h =
     (case prepare cr snapshot tid rid sid tmap tax eff stax fee ms vlimit h of
        Inl e \<Rightarrow> Some (Inl e)
      | Inr (E, st0) \<Rightarrow>
          (case rounds E st0 of
             None \<Rightarrow> None
           | Some (Inl e) \<Rightarrow> Some (Inl e)
           | Some (Inr st) \<Rightarrow> Some (Inr (report st, heap st))))"

section \<open>Opportunity scanner\<close>

text \<open>An opportunity with the time and the type name the scanner adds.\<close>

record found = opportunity +
  opp_time :: int
  opp_type :: string

definition tag :: "opportunity \<Rightarrow> int \<Rightarrow> string \<Rightarrow> found" where
  "tag opp snapshot_time name = opportunity.extend opp \<lparr>opp_time = snapshot_time, opp_type = name\<rparr>"

text \<open>
  \<^verbatim>\<open>order_book.groupby(order_book.index)\<close> yields the snapshots with their times, in
  increasing time: the order book is that list.  Times are in seconds.
\<close>

type_synonym order_book = "(int \<times> snapshot) list"

type_synonym attempter = "snapshot \<Rightarrow> nat \<Rightarrow> store \<Rightarrow> (py_error + (opportunity option \<times> store)) option"

fun scan_types :: "attempter \<Rightarrow> int \<Rightarrow> snapshot \<Rightarrow> source_type list \<Rightarrow> found list \<Rightarrow> store
    \<Rightarrow> (py_error + (found list \<times> store)) option" where
  "scan_types att snapshot_time snapshot [] opportunities h = Some (Inr (opportunities, h))"
| "scan_types att snapshot_time snapshot (src # rest) opportunities h =
     (case att snapshot (typeID src) h of
        None \<Rightarrow> None
      | Some (Inl e) \<Rightarrow> Some (Inl e)
      | Some (Inr (None, h')) \<Rightarrow> scan_types att snapshot_time snapshot rest opportunities h'
      | Some (Inr (Some opp, h')) \<Rightarrow>
          scan_types att snapshot_time snapshot rest
            (opportunities @ [tag opp snapshot_time (typeName src)]) h')"

fun scan_snapshots :: "attempter \<Rightarrow> order_book \<Rightarrow> source_type list \<Rightarrow> found list \<Rightarrow> store
    \<Rightarrow> (py_error + (found list \<times> store)) option" where
  "scan_snapshots att [] types opportunities h = Some (Inr (opportunities, h))"
| "scan_snapshots att (snapshot_group # rest) types opportunities h =
     (case scan_types att (fst snapshot_group) (snd snapshot_group) types opportunities h of
        None \<Rightarrow> None
      | Some (Inl e) \<Rightarrow> Some (Inl e)
      | Some (Inr (opportunities', h')) \<Rightarrow> scan_snapshots att rest types opportunities' h')"

definition find_opportunities :: "range_check \<Rightarrow> order_book \<Rightarrow> type_map \<Rightarrow> nat \<Rightarrow> nat \<Rightarrow> rat \<Rightarrow> rat
    \<Rightarrow> rat \<Rightarrow> rat \<Rightarrow> market_summary \<Rightarrow> rat \<Rightarrow> store
    \<Rightarrow> (py_error + (found list \<times> store)) option" where
  "find_opportunities cr book tmap sid rid eff sales_tax stax fee ms vlimit h =
     scan_snapshots
       (\<lambda>snapshot tid. attempt_opportunity cr snapshot tid rid sid tmap sales_tax eff stax fee ms vlimit)
       book (map snd tmap) [] h"

section \<open>Deduplicator and aggregate\<close>

definition five_minutes :: int where
  "five_minutes = 300"

text \<open>The inner loop of \<^verbatim>\<open>clean_opportunities\<close> over the times of one type; the first
  argument is the variable \<^verbatim>\<open>last\<close>.\<close>

fun stamp_loop :: "int option \<Rightarrow> int list \<Rightarrow> int list" where
  "stamp_loop previous [] = []"
| "stamp_loop None (i # rest) = i # stamp_loop (Some i) rest"
| "stamp_loop (Some previous) (i # rest) =
     (if i - previous > five_minutes then i # stamp_loop (Some i) rest else stamp_loop (Some i) rest)"

definition stamp_map :: "found list \<Rightarrow> string \<Rightarrow> int list" where
  "stamp_map opps next_type =
     stamp_loop None (map opp_time (filter (\<lambda>x. opp_type x = next_type) opps))"

definition clean_opportunities :: "found list \<Rightarrow> found list" where
  "clean_opportunities opps =
     filter (\<lambda>opp. opp_time opp \<in> set (stamp_map opps (opp_type opp))) opps"

text \<open>The aggregate return of the last cell: \<^verbatim>\<open>total_profit / total_cost\<close>.\<close>

definition total_return :: "found list \<Rightarrow> rat option" where
  "total_return opps = np_divide (sum_list (map profit opps)) (sum_list (map cost opps))"

text \<open>A range check with its errors turned into the answer "not in range".\<close>

definition swallow :: "range_check \<Rightarrow> range_check" where
  "swallow cr rid lid oloc orange =
     (case cr rid lid oloc orange of Inl e \<Rightarrow> Inr False | Inr ok \<Rightarrow> Inr ok)"

text \<open>
  Two final states of the loop are compared by what a committed round adds to: the lists
  of orders and the two totals.  The totals of the source are sums of floats, so a sum of
  rounds that each have a gross above their cost need not have a gross above its cost:
  progress of the loop is measured by the list of buys, not by the totals.
\<close>

definition unchanged_totals :: "attempt_state \<Rightarrow> attempt_state \<Rightarrow> bool" where
  "unchanged_totals st st' \<longleftrightarrow>
     all_buy_orders st' = all_buy_orders st \<and> all_sell_orders st' = all_sell_orders st \<and>
     gross_acc st' = gross_acc st \<and> cost_acc st' = cost_acc st"

definition round_progress :: "attempt_state \<Rightarrow> attempt_state \<Rightarrow> bool" where
  "round_progress st st' \<longleftrightarrow>
     unchanged_totals st st' \<or> length (all_buy_orders st) < length (all_buy_orders st')"

text \<open>
  The states in which a pass of the \<^verbatim>\<open>while\<close> loop starts: the state the loop is entered
  with, and the state every committed round leaves.  The first state argument is the state
  the loop is entered with.
\<close>

inductive round_start :: "env \<Rightarrow> attempt_state \<Rightarrow> attempt_state \<Rightarrow> bool" for E st0 where
  entered: "round_start E st0 st0"
| committed: "round_start E st0 st \<Longrightarrow>
     one_round E st = Inr (Traded bought sold current_gross current_cost st2) \<Longrightarrow>
     current_gross > current_cost \<Longrightarrow>
     commit bought sold current_gross current_cost st2 = Inr st3 \<Longrightarrow>
     round_start E st0 st3"

code_pred round_start .

text \<open>
  The states in which the loop over the refined materials sells a material:
  \<^term>\<open>sale_start E ks st m t\<close> says that the loop over the keys \<^term>\<open>ks\<close>, entered in the state
  \<^term>\<open>st\<close>, comes to the material \<^term>\<open>m\<close> in the state \<^term>\<open>t\<close>.  The loop goes on to the
  next key only after a sale that sold something.
\<close>

inductive sale_start :: "env \<Rightarrow> nat list \<Rightarrow> attempt_state \<Rightarrow> nat \<Rightarrow> attempt_state \<Rightarrow> bool"
  for E where
  reached: "sale_start E (m # rest) st m st"
| passed: "sell_material E next_mat_id st = Inr (by_limit, sold, st1) \<Longrightarrow>
     length sold \<noteq> 0 \<Longrightarrow>
     sale_start E rest st1 m t \<Longrightarrow>
     sale_start E (next_mat_id # rest) st m t"

code_pred sale_start .

text \<open>
  The input the deduplicator gets from the scanner: for each type, the times grow along
  the list.
\<close>

definition chronological :: "found list \<Rightarrow> bool" where
  "chronological opps \<longleftrightarrow>
     (\<forall>t\<in>set (map opp_type opps).
        sorted_wrt (<) (map opp_time (filter (\<lambda>x. opp_type x = t) opps)))"

text \<open>The opportunity of a type that comes last in a list, if there is one.\<close>

definition last_of_type :: "string \<Rightarrow> found list \<Rightarrow> found option" where
  "last_of_type t pre =
     (case filter (\<lambda>y. opp_type y = t) pre of [] \<Rightarrow> None | y # ys \<Rightarrow> Some (last (y # ys)))"

text \<open>
  The deduplication in the words of the specification: an opportunity is dropped when it
  is within five minutes of the last retained opportunity of its type.  The first
  argument is the time of that opportunity.
\<close>

fun spec_stamp_loop :: "int option \<Rightarrow> int list \<Rightarrow> int list" where
  "spec_stamp_loop retained [] = []"
| "spec_stamp_loop None (i # rest) = i # spec_stamp_loop (Some i) rest"
| "spec_stamp_loop (Some retained) (i # rest) =
     (if i - retained > five_minutes then i # spec_stamp_loop (Some i) rest
      else spec_stamp_loop (Some retained) rest)"

definition spec_clean_opportunities :: "found list \<Rightarrow> found list" where
  "spec_clean_opportunities opps =
     filter (\<lambda>opp. opp_time opp \<in>
        set (spec_stamp_loop None (map opp_time (filter (\<lambda>x. opp_type x = opp_type opp) opps)))) opps"

section \<open>Stores, addresses and states that differ in addresses only\<close>

text \<open>The objects a list of addresses points to.\<close>

definition cells :: "store \<Rightarrow> addr list \<Rightarrow> order list" where
  "cells h as = map (nth h) as"

text \<open>The addresses an attempt holds: those of its list of sell orders and of its lists of
  buy orders.\<close>

definition touched :: "attempt_state \<Rightarrow> addr set" where
  "touched st = set (sell_order_list st) \<union>
     {a. \<exists>k l. map_of (buy_order_map st) k = Some l \<and> a \<in> set l}"

text \<open>The lists of an attempt hold addresses of the store, each once, and no address is in
  two lists.\<close>

definition owned :: "attempt_state \<Rightarrow> bool" where
  "owned st \<longleftrightarrow>
     distinct (sell_order_list st) \<and>
     (\<forall>a\<in>touched st. a < length (heap st)) \<and>
     (\<forall>k l. map_of (buy_order_map st) k = Some l \<longrightarrow>
        distinct l \<and> set l \<inter> set (sell_order_list st) = {}) \<and>
     (\<forall>k l k' l'. map_of (buy_order_map st) k = Some l \<longrightarrow>
        map_of (buy_order_map st) k' = Some l' \<longrightarrow> k \<noteq> k' \<longrightarrow> set l \<inter> set l' = {})"

text \<open>Two states of an attempt that differ in addresses only: the lists point to the same
  objects and all other variables are equal.\<close>

definition alike :: "attempt_state \<Rightarrow> attempt_state \<Rightarrow> bool" where
  "alike s t \<longleftrightarrow>
     cells (heap s) (sell_order_list s) = cells (heap t) (sell_order_list t) \<and>
     map fst (buy_order_map s) = map fst (buy_order_map t) \<and>
     (\<forall>k l l'. map_of (buy_order_map s) k = Some l \<longrightarrow> map_of (buy_order_map t) k = Some l' \<longrightarrow>
        cells (heap s) l = cells (heap t) l') \<and>
     all_sell_orders s = all_sell_orders t \<and> limit_order_max s = limit_order_max t \<and>
     spread_data s = spread_data t \<and> all_buy_orders s = all_buy_orders t \<and>
     gross_acc s = gross_acc t \<and> cost_acc s = cost_acc t"

text \<open>The second state has the lists and the store size of the first, and every object the
  first does not hold is as it was.\<close>

definition settled :: "attempt_state \<Rightarrow> attempt_state \<Rightarrow> bool" where
  "settled st st' \<longleftrightarrow>
     sell_order_list st' = sell_order_list st \<and> buy_order_map st' = buy_order_map st \<and>
     length (heap st') = length (heap st) \<and>
     (\<forall>b. b \<notin> touched st \<longrightarrow> heap st' ! b = heap st ! b)"

text \<open>Every address an attempt holds is at least \<open>n\<close>.\<close>

definition beyond :: "nat \<Rightarrow> attempt_state \<Rightarrow> bool" where
  "beyond n st \<longleftrightarrow> (\<forall>a\<in>touched st. n \<le> a)"

text \<open>Two outcomes of a round that differ in addresses only.\<close>

fun alike_outcome :: "round_outcome \<Rightarrow> round_outcome \<Rightarrow> bool" where
  "alike_outcome (Stop s) (Stop t) = alike s t"
| "alike_outcome (Traded b so cg cc s) (Traded b' so' cg' cc' t) =
     (b = b' \<and> so = so' \<and> cg = cg' \<and> cc = cc' \<and> alike s t)"
| "alike_outcome x y = False"

text \<open>One pass of the first loop of \<^verbatim>\<open>attempt_opportunity\<close>, as a change of the state.\<close>

definition add_material :: "nat \<Rightarrow> addr list \<Rightarrow> rat \<Rightarrow> spread \<Rightarrow> store \<Rightarrow> attempt_state
    \<Rightarrow> attempt_state" where
  "add_material mid orders budget sr_data h st =
     st\<lparr>heap := h,
        buy_order_map := AList.update mid orders (buy_order_map st),
        all_sell_orders := AList.update mid [] (all_sell_orders st),
        limit_order_max := AList.update mid budget (limit_order_max st),
        spread_data := AList.update mid sr_data (spread_data st)\<rparr>"

text \<open>The state before the first loop.\<close>

definition start_state :: "addr list \<Rightarrow> store \<Rightarrow> attempt_state" where
  "start_state orders h =
     \<lparr>heap = h, sell_order_list = orders, buy_order_map = [], all_sell_orders = [],
      limit_order_max = [], spread_data = [], all_buy_orders = [], gross_acc = 0, cost_acc = 0\<rparr>"

section \<open>Example data\<close>

text \<open>The order of the example: price 100, volume 50, minimum volume 1.\<close>

definition ex_sell_order :: order where
  "ex_sell_order = \<lparr>type_id = 1, location_id = 7, buy = False, price = 100, volume = 50,
     min_volume = 1, order_range = ''station''\<rparr>"

definition ex_buy_order :: order where
  "ex_buy_order = \<lparr>type_id = 2, location_id = 7, buy = True, price = 100, volume = 50,
     min_volume = 1, order_range = ''station''\<rparr>"

definition always_in_range :: range_check where
  "always_in_range rid lid oloc orange = Inr True"


text \<open>A range check that raises for the location 9, and a buy order placed there.\<close>

definition raising_check :: range_check where
  "raising_check rid lid oloc orange = (if oloc = 9 then Inl RangeError else Inr True)"

definition ex_citadel_order :: order where
  "ex_citadel_order = \<lparr>type_id = 2, location_id = 9, buy = True, price = 120, volume = 50,
     min_volume = 1, order_range = ''station''\<rparr>"

text \<open>
  A snapshot with one source order and, for the refined material 2, a best ask of 105 and
  a best bid of 100; the states an attempt goes through on it; variants with a dear and
  with a free source.
\<close>

definition ex_snapshot :: snapshot where
  "ex_snapshot =
    [\<lparr>type_id = 1, location_id = 7, buy = False, price = 10, volume = 100, min_volume = 1, order_range = ''region''\<rparr>,
     \<lparr>type_id = 2, location_id = 7, buy = False, price = 105, volume = 10, min_volume = 1, order_range = ''region''\<rparr>,
     \<lparr>type_id = 2, location_id = 7, buy = True, price = 100, volume = 1000, min_volume = 1, order_range = ''station''\<rparr>]"

definition ex_source :: source_type where
  "ex_source = \<lparr>typeID = 1, typeName = ''Veldspar'', portionSize = 100,
      material_map = [(2, \<lparr>materialTypeID = 2, quantity = 415\<rparr>)]\<rparr>"

definition ex_types :: type_map where
  "ex_types = [(1, ex_source)]"

definition ex_summary :: market_summary where
  "ex_summary = [(2, 1000000)]"

definition ex_env :: env where
  "ex_env = \<lparr>check_range = always_in_range, region_id = 3, station_id = 7,
         materials = [(2, \<lparr>materialTypeID = 2, quantity = 415\<rparr>)],
         required_volume = 100, tax_rate = 1 / 100,
         efficiency = 2783 / 4000, station_tax = 1 / 25,
         broker_fee = 1 / 40, limit_threshold = 5 / 193\<rparr>"

definition ex_state :: attempt_state where
  "ex_state = \<lparr>heap = [ex_snapshot ! 0, ex_snapshot ! 2, ex_snapshot ! 1, ex_snapshot ! 2],
         sell_order_list = [0], buy_order_map = [(2, [1])],
         all_sell_orders = [(2, [])], limit_order_max = [(2, 10000)],
         spread_data = [(2, \<lparr>sr_value = 1 / 20, best_bid = Some 100, best_ask = Some 105\<rparr>)],
         all_buy_orders = [], gross_acc = 0, cost_acc = 0\<rparr>"

definition ex_dear_state :: attempt_state where
  "ex_dear_state = ex_state\<lparr>heap := (heap ex_state)[0 := (ex_snapshot ! 0)\<lparr>price := 1000\<rparr>]\<rparr>"

definition ex_bought :: "order_record list" where
  "ex_bought = [\<lparr>rec_price = 10, rec_volume = 100, market = True\<rparr>]"

definition ex_sold :: "(nat \<times> order_record list) list" where
  "ex_sold = [(2, [\<lparr>rec_price = 105, rec_volume = 288, market = False\<rparr>])]"

definition ex_traded_state :: attempt_state where
  "ex_traded_state = ex_state\<lparr>heap := (heap ex_state)[0 := (ex_snapshot ! 0)\<lparr>volume := 0\<rparr>],
     limit_order_max := [(2, 9712)]\<rparr>"

definition ex_dear_traded_state :: attempt_state where
  "ex_dear_traded_state =
     ex_state\<lparr>heap := (heap ex_state)[0 := (ex_snapshot ! 0)\<lparr>price := 1000, volume := 0\<rparr>],
     limit_order_max := [(2, 9712)]\<rparr>"

definition ex_final_state :: attempt_state where
  "ex_final_state = ex_traded_state\<lparr>all_buy_orders := ex_bought, all_sell_orders := ex_sold,
     cost_acc := 11048 / 5, gross_acc := 145908 / 5\<rparr>"

text \<open>The state after the source is bought, before the material is sold.\<close>

definition ex_bought_state :: attempt_state where
  "ex_bought_state = ex_state\<lparr>heap := (heap ex_state)[0 := (ex_snapshot ! 0)\<lparr>volume := 0\<rparr>]\<rparr>"

text \<open>A market summary with no volume for the material 2, and the states of its attempt.\<close>

definition ex_dry_summary :: market_summary where
  "ex_dry_summary = [(2, 0)]"

definition ex_dry_state :: attempt_state where
  "ex_dry_state = ex_state\<lparr>limit_order_max := [(2, 0)]\<rparr>"

definition ex_dry_bought_state :: attempt_state where
  "ex_dry_bought_state =
     ex_dry_state\<lparr>heap := (heap ex_state)[0 := (ex_snapshot ! 0)\<lparr>volume := 0\<rparr>]\<rparr>"

definition ex_dear_snapshot :: snapshot where
  "ex_dear_snapshot = ex_snapshot[0 := (ex_snapshot ! 0)\<lparr>price := 1000\<rparr>]"

definition ex_opportunity :: opportunity where
  "ex_opportunity = \<lparr>gross = 145908 / 5, cost = 11048 / 5, profit = 26972,
     margin = Some (33715 / 2762), buy_orders = ex_bought, sell_orders = ex_sold\<rparr>"

definition ex_found :: "int \<Rightarrow> found" where
  "ex_found t = \<lparr>gross = 2, cost = 1, profit = 1, margin = Some 1, buy_orders = [],
     sell_orders = [], opp_time = t, opp_type = ''Veldspar''\<rparr>"

definition ex_free_snapshot :: snapshot where
  "ex_free_snapshot = ex_snapshot[0 := (ex_snapshot ! 0)\<lparr>price := 0\<rparr>]"

definition ex_free_env :: env where
  "ex_free_env = ex_env\<lparr>station_tax := 0\<rparr>"

definition ex_free_state :: attempt_state where
  "ex_free_state = ex_state\<lparr>heap := (heap ex_state)[0 := (ex_snapshot ! 0)\<lparr>price := 0\<rparr>]\<rparr>"

definition ex_free_bought :: "order_record list" where
  "ex_free_bought = [\<lparr>rec_price = 0, rec_volume = 100, market = True\<rparr>]"

definition ex_free_traded_state :: attempt_state where
  "ex_free_traded_state =
     ex_state\<lparr>heap := (heap ex_state)[0 := (ex_snapshot ! 0)\<lparr>price := 0, volume := 0\<rparr>],
     limit_order_max := [(2, 9712)]\<rparr>"

definition ex_free_final_state :: attempt_state where
  "ex_free_final_state = ex_free_traded_state\<lparr>all_buy_orders := ex_free_bought,
     all_sell_orders := ex_sold, cost_acc := 0, gross_acc := 145908 / 5\<rparr>"

definition ex_free_opportunity :: opportunity where
  "ex_free_opportunity = \<lparr>gross = 145908 / 5, cost = 0, profit = 145908 / 5,
     margin = None, buy_orders = ex_free_bought, sell_orders = ex_sold\<rparr>"

section \<open>Properties of the order matcher\<close>

lemma available_nonneg: "0 \<le> available h as"
  unfolding available_def by (induction as) auto

lemma available_Cons: "available h (a # as) = max 0 (volume (h ! a)) + available h as"
  by (simp add: available_def)

lemma available_consume_le:
  "0 \<le> amount \<Longrightarrow> available (h[a := consume (h ! a) amount]) as \<le> available h as"
proof (induction as)
  case Nil
  then show ?case by (simp add: available_def)
next
  case (Cons b as)
  have "max 0 (volume (h[a := consume (h ! a) amount] ! b)) \<le> max 0 (volume (h ! b))"
    using Cons.prems by (cases "a < length h"; cases "a = b") (auto simp: consume_def list_update_beyond)
  with Cons show ?case by (simp add: available_Cons)
qed

lemma total_volume_snoc: "total_volume (rs @ [r]) = total_volume rs + rec_volume r"
  by (simp add: total_volume_def)

lemma buy_loop_inv:
  "buy_loop bv pot as h = (r, left, h') \<Longrightarrow>
     r = [] \<or> (total_volume r = total_volume pot + of_int bv \<and> left = 0)"
proof (induction bv pot as h rule: buy_loop.induct)
  case (1 bv pot h)
  then show ?case by simp
next
  case (2 bv pot a rest h)
  then show ?case
    by (auto simp: total_volume_snoc make_record_def split: if_splits)
qed

lemma buy_loop_liquid:
  "buy_loop bv pot as h = (r, left, h') \<Longrightarrow> r = [] \<or> bv \<le> available h as"
proof (induction bv pot as h rule: buy_loop.induct)
  case (1 bv pot h)
  then show ?case by simp
next
  case (2 bv pot a rest h)
  let ?amt = "fill_amount bv (h ! a)"
  show ?case
  proof (cases "min_volume (h ! a) \<le> bv \<and> 0 < volume (h ! a)")
    case True
    show ?thesis
    proof (cases "bv - ?amt = 0")
      case z: True
      then have "bv \<le> volume (h ! a)" by (simp add: fill_amount_def)
      then show ?thesis using available_nonneg[of h rest] by (simp add: available_Cons max_def)
    next
      case nz: False
      then have amt: "?amt = volume (h ! a)" by (auto simp: fill_amount_def min_def)
      from 2(1)[OF True nz] 2(3) True nz
      have "r = [] \<or> bv - ?amt \<le> available (h[a := consume (h ! a) ?amt]) rest" by simp
      moreover have "available (h[a := consume (h ! a) ?amt]) rest \<le> available h rest"
        using True amt by (intro available_consume_le) simp
      ultimately show ?thesis using True amt by (auto simp: available_Cons)
    qed
  next
    case False
    show ?thesis
    proof (cases "bv = 0")
      case True
      then show ?thesis using available_nonneg[of h "a # rest"] by simp
    next
      case nz: False
      from 2(2)[OF False nz] 2(3) False nz have "r = [] \<or> bv \<le> available h rest" by simp
      then show ?thesis using False by (auto simp: available_Cons)
    qed
  qed
qed

lemma sell_loop_inv:
  "sell_loop cr rid lid sv pot as h = (r, left, h') \<Longrightarrow>
     r = [] \<or> (total_volume r = total_volume pot + of_int sv \<and> left = 0)"
proof (induction cr rid lid sv pot as h rule: sell_loop.induct)
  case (1 cr rid lid sv pot h)
  then show ?case by simp
next
  case (2 cr rid lid sv pot a rest h)
  then show ?case
    by (auto simp: total_volume_snoc make_record_def split: if_splits)
qed

lemma sell_loop_liquid:
  "sell_loop cr rid lid sv pot as h = (r, left, h') \<Longrightarrow> r = [] \<or> sv \<le> available h as"
proof (induction cr rid lid sv pot as h rule: sell_loop.induct)
  case (1 cr rid lid sv pot h)
  then show ?case by simp
next
  case (2 cr rid lid sv pot a rest h)
  let ?amt = "fill_amount sv (h ! a)"
  show ?case
  proof (cases "sell_match cr rid lid sv (h ! a)")
    case True
    then have pos: "0 < volume (h ! a)" by (simp add: sell_match_def)
    show ?thesis
    proof (cases "sv - ?amt = 0")
      case z: True
      then have "sv \<le> volume (h ! a)" by (simp add: fill_amount_def)
      then show ?thesis using available_nonneg[of h rest] by (simp add: available_Cons max_def)
    next
      case nz: False
      then have amt: "?amt = volume (h ! a)" by (auto simp: fill_amount_def min_def)
      from 2(1)[OF True nz] 2(3) True nz
      have "r = [] \<or> sv - ?amt \<le> available (h[a := consume (h ! a) ?amt]) rest" by simp
      moreover have "available (h[a := consume (h ! a) ?amt]) rest \<le> available h rest"
        using pos amt by (intro available_consume_le) simp
      ultimately show ?thesis using pos amt by (auto simp: available_Cons)
    qed
  next
    case False
    show ?thesis
    proof (cases "sv = 0")
      case True
      then show ?thesis using available_nonneg[of h "a # rest"] by simp
    next
      case nz: False
      from 2(2)[OF False nz] 2(3) False nz have "r = [] \<or> sv \<le> available h rest" by simp
      moreover have "available h rest \<le> available h (a # rest)" by (simp add: available_Cons)
      ultimately show ?thesis by auto
    qed
  qed
qed


text \<open>
  C1: the matcher is all or nothing.  When \<^verbatim>\<open>attempt_buy_type_list\<close> (or
  \<^verbatim>\<open>attempt_sell_type_list\<close>) returns a non-empty list, its volumes add up to the
  required volume.  When the function is left with volume still to fill, and whenever the
  orders offer less than the required volume, it returns the empty list.
\<close>

theorem matcher_all_or_nothing:
  "(fst (attempt_buy_type_list v as h) \<noteq> [] \<longrightarrow>
      total_volume (fst (attempt_buy_type_list v as h)) = of_int v) \<and>
   (fst (snd (buy_loop v [] as h)) \<noteq> 0 \<longrightarrow> fst (attempt_buy_type_list v as h) = []) \<and>
   (available h as < v \<longrightarrow> fst (attempt_buy_type_list v as h) = []) \<and>
   (fst (attempt_sell_type_list cr rid lid v as h) \<noteq> [] \<longrightarrow>
      total_volume (fst (attempt_sell_type_list cr rid lid v as h)) = of_int v) \<and>
   (fst (snd (sell_loop cr rid lid v [] as h)) \<noteq> 0 \<longrightarrow>
      fst (attempt_sell_type_list cr rid lid v as h) = []) \<and>
   (available h as < v \<longrightarrow> fst (attempt_sell_type_list cr rid lid v as h) = [])"
proof -
  obtain r left h' where b: "buy_loop v [] as h = (r, left, h')"
    by (cases "buy_loop v [] as h") auto
  obtain r2 left2 h2 where s: "sell_loop cr rid lid v [] as h = (r2, left2, h2)"
    by (cases "sell_loop cr rid lid v [] as h") auto
  have "r = [] \<or> (total_volume r = of_int v \<and> left = 0)"
    using buy_loop_inv[OF b] by (simp add: total_volume_def)
  moreover have "r = [] \<or> v \<le> available h as" by (rule buy_loop_liquid[OF b])
  moreover have "r2 = [] \<or> (total_volume r2 = of_int v \<and> left2 = 0)"
    using sell_loop_inv[OF s] by (simp add: total_volume_def)
  moreover have "r2 = [] \<or> v \<le> available h as" by (rule sell_loop_liquid[OF s])
  ultimately show ?thesis
    using b s by (auto simp: attempt_buy_type_list_def attempt_sell_type_list_def)
qed


theorem matcher_all_or_nothing_witness:
  "fst (attempt_buy_type_list 50 [0] [ex_sell_order]) \<noteq> [] \<and>
   total_volume (fst (attempt_buy_type_list 50 [0] [ex_sell_order])) = 50 \<and>
   fst (snd (buy_loop 60 [] [0] [ex_sell_order])) \<noteq> 0 \<and>
   available [ex_sell_order] [0] < 60 \<and>
   fst (attempt_buy_type_list 60 [0] [ex_sell_order]) = [] \<and>
   fst (attempt_sell_type_list always_in_range 3 7 50 [0] [ex_buy_order]) \<noteq> [] \<and>
   total_volume (fst (attempt_sell_type_list always_in_range 3 7 50 [0] [ex_buy_order])) = 50 \<and>
   fst (snd (sell_loop always_in_range 3 7 60 [] [0] [ex_buy_order])) \<noteq> 0 \<and>
   fst (attempt_sell_type_list always_in_range 3 7 60 [0] [ex_buy_order]) = []"
proof -
  have b50: "fst (attempt_buy_type_list 50 [0] [ex_sell_order]) \<noteq> []"
    by (simp add: attempt_buy_type_list_def ex_sell_order_def fill_amount_def)
  have b60: "fst (snd (buy_loop 60 [] [0] [ex_sell_order])) \<noteq> 0"
    by (simp add: ex_sell_order_def fill_amount_def)
  have av: "available [ex_sell_order] [0] < 60"
    by (simp add: available_def ex_sell_order_def)
  have s50: "fst (attempt_sell_type_list always_in_range 3 7 50 [0] [ex_buy_order]) \<noteq> []"
    by (simp add: attempt_sell_type_list_def sell_match_def always_in_range_def ex_buy_order_def fill_amount_def)
  have s60: "fst (snd (sell_loop always_in_range 3 7 60 [] [0] [ex_buy_order])) \<noteq> 0"
    by (simp add: sell_match_def always_in_range_def ex_buy_order_def fill_amount_def)
  show ?thesis
    using b50 b60 av s50 s60
      matcher_all_or_nothing[of 50 "[0]" "[ex_sell_order]" always_in_range 3 7]
      matcher_all_or_nothing[of 60 "[0]" "[ex_sell_order]" always_in_range 3 7]
      matcher_all_or_nothing[of 50 "[0]" "[ex_buy_order]" always_in_range 3 7]
      matcher_all_or_nothing[of 60 "[0]" "[ex_buy_order]" always_in_range 3 7]
    by simp
qed

section \<open>Range checks that raise\<close>

lemma sell_match_swallow: "sell_match (swallow cr) rid lid sv x = sell_match cr rid lid sv x"
  by (simp add: sell_match_def swallow_def split: sum.splits)

lemma sell_loop_swallow:
  "sell_loop (swallow cr) rid lid sv pot as h = sell_loop cr rid lid sv pot as h"
proof (induction cr rid lid sv pot as h rule: sell_loop.induct)
  case (1 cr rid lid sv pot h)
  show ?case by simp
next
  case (2 cr rid lid sv pot a rest h)
  show ?case
  proof (cases "sell_match cr rid lid sv (h ! a)")
    case True
    then show ?thesis using 2(1) by (simp add: sell_match_swallow)
  next
    case False
    then show ?thesis using 2(2) by (simp add: sell_match_swallow)
  qed
qed

lemma best_bid_search_swallow:
  "best_bid_search (swallow cr) rid sid as h = best_bid_search cr rid sid as h"
  by (induction as) (simp_all add: swallow_def split: sum.splits)

lemma spread_return_swallow:
  "spread_return (swallow cr) snapshot tid sid rid h = spread_return cr snapshot tid sid rid h"
  by (simp add: spread_return_def best_bid_search_swallow split: prod.splits)

text \<open>
  C8: a range check that raises is never fatal.  In the sell-side matcher and in the
  search for the best bid, an order whose check raises is passed over and the loop goes
  on with the next order; both functions give the result they give when every raising
  check answers "not in range".
\<close>

theorem range_failure_not_fatal:
  "(cr rid lid (location_id (h ! a)) (order_range (h ! a)) = Inl e \<longrightarrow>
      sell_loop cr rid lid sv pot (a # rest) h =
        (if sv = 0 then (pot, sv, h) else sell_loop cr rid lid sv pot rest h) \<and>
      best_bid_search cr rid lid (a # rest) h = best_bid_search cr rid lid rest h) \<and>
   attempt_sell_type_list cr rid lid sv as h = attempt_sell_type_list (swallow cr) rid lid sv as h \<and>
   spread_return cr snapshot tid lid rid h = spread_return (swallow cr) snapshot tid lid rid h"
  by (simp add: sell_match_def attempt_sell_type_list_def sell_loop_swallow spread_return_swallow)

theorem range_failure_not_fatal_witness:
  "raising_check 3 7 (location_id ([ex_citadel_order, ex_buy_order] ! 0))
      (order_range ([ex_citadel_order, ex_buy_order] ! 0)) = Inl RangeError \<and>
   sell_loop raising_check 3 7 50 [] [0, 1] [ex_citadel_order, ex_buy_order] =
     ([\<lparr>rec_price = 100, rec_volume = 50, market = True\<rparr>], 0,
      [ex_citadel_order, ex_buy_order\<lparr>volume := 0\<rparr>]) \<and>
   best_bid_search raising_check 3 7 [0, 1] [ex_citadel_order, ex_buy_order] = Some 100"
proof -
  have c: "raising_check 3 7 (location_id ([ex_citadel_order, ex_buy_order] ! 0))
      (order_range ([ex_citadel_order, ex_buy_order] ! 0)) = Inl RangeError"
    by (simp add: raising_check_def ex_citadel_order_def)
  have s: "sell_loop raising_check 3 7 50 [] [1] [ex_citadel_order, ex_buy_order] =
     ([\<lparr>rec_price = 100, rec_volume = 50, market = True\<rparr>], 0,
      [ex_citadel_order, ex_buy_order\<lparr>volume := 0\<rparr>])"
    by (simp add: sell_match_def raising_check_def ex_buy_order_def fill_amount_def
        make_record_def consume_def)
  have b: "best_bid_search raising_check 3 7 [1] [ex_citadel_order, ex_buy_order] = Some 100"
    by (simp add: raising_check_def ex_buy_order_def)
  show ?thesis
    using c s b
      range_failure_not_fatal[of raising_check 3 7 "[ex_citadel_order, ex_buy_order]" 0
        RangeError 50 "[]" "[1]"]
    by simp
qed


section \<open>Volume consumed by a failed fill\<close>

lemma buy_loop_mono:
  "0 \<le> bv \<Longrightarrow> buy_loop bv pot as h = (r, left, h') \<Longrightarrow>
     length h' = length h \<and> (\<forall>b. volume (h' ! b) \<le> volume (h ! b))"
proof (induction bv pot as h arbitrary: r left h' rule: buy_loop.induct)
  case (1 bv pot h)
  then show ?case by simp
next
  case (2 bv pot a rest h)
  let ?amt = "fill_amount bv (h ! a)"
  let ?h1 = "h[a := consume (h ! a) ?amt]"
  have step: "0 < volume (h ! a) \<Longrightarrow> volume (?h1 ! b) \<le> volume (h ! b)" for b
    using 2(3) by (cases "a < length h"; cases "a = b")
      (auto simp: consume_def fill_amount_def list_update_beyond)
  show ?case
  proof (cases "min_volume (h ! a) \<le> bv \<and> 0 < volume (h ! a)")
    case True
    show ?thesis
    proof (cases "bv - ?amt = 0")
      case z: True
      with True 2(4) have "h' = ?h1" by simp
      then show ?thesis using step True by simp
    next
      case nz: False
      have nonneg: "0 \<le> bv - ?amt" using 2(3) by (simp add: fill_amount_def)
      have run: "buy_loop (bv - ?amt) (pot @ [make_record (h ! a) ?amt]) rest ?h1 = (r, left, h')"
        using 2(4) True nz by simp
      from 2(1)[OF True nz nonneg run]
      have "length h' = length ?h1" and "\<forall>b. volume (h' ! b) \<le> volume (?h1 ! b)" by auto
      then show ?thesis using step True by (auto intro: order_trans)
    qed
  next
    case False
    show ?thesis
    proof (cases "bv = 0")
      case True
      with False 2(4) show ?thesis by auto
    next
      case nz: False
      have "buy_loop bv pot rest h = (r, left, h')" using 2(4) False nz by auto
      from 2(2)[OF False nz 2(3) this] show ?thesis .
    qed
  qed
qed


lemma sell_loop_mono:
  "0 \<le> sv \<Longrightarrow> sell_loop cr rid lid sv pot as h = (r, left, h') \<Longrightarrow>
     length h' = length h \<and> (\<forall>b. volume (h' ! b) \<le> volume (h ! b))"
proof (induction cr rid lid sv pot as h arbitrary: r left h' rule: sell_loop.induct)
  case (1 cr rid lid sv pot h)
  then show ?case by simp
next
  case (2 cr rid lid sv pot a rest h)
  let ?amt = "fill_amount sv (h ! a)"
  let ?h1 = "h[a := consume (h ! a) ?amt]"
  have step: "0 < volume (h ! a) \<Longrightarrow> volume (?h1 ! b) \<le> volume (h ! b)" for b
    using 2(3) by (cases "a < length h"; cases "a = b")
      (auto simp: consume_def fill_amount_def list_update_beyond)
  show ?case
  proof (cases "sell_match cr rid lid sv (h ! a)")
    case True
    then have pos: "0 < volume (h ! a)" by (simp add: sell_match_def)
    show ?thesis
    proof (cases "sv - ?amt = 0")
      case z: True
      with True 2(4) have "h' = ?h1" by simp
      then show ?thesis using step pos by simp
    next
      case nz: False
      have nonneg: "0 \<le> sv - ?amt" using 2(3) by (simp add: fill_amount_def)
      have run: "sell_loop cr rid lid (sv - ?amt) (pot @ [make_record (h ! a) ?amt]) rest ?h1
          = (r, left, h')"
        using 2(4) True nz by simp
      from 2(1)[OF True nz nonneg run]
      have "length h' = length ?h1" and "\<forall>b. volume (h' ! b) \<le> volume (?h1 ! b)" by auto
      then show ?thesis using step pos by (auto intro: order_trans)
    qed
  next
    case False
    show ?thesis
    proof (cases "sv = 0")
      case True
      with False 2(4) show ?thesis by auto
    next
      case nz: False
      have "sell_loop cr rid lid sv pot rest h = (r, left, h')" using 2(4) False nz by auto
      from 2(2)[OF False nz 2(3) this] show ?thesis .
    qed
  qed
qed

lemma buy_first_consumed:
  assumes "a < length h" "0 < volume (h ! a)" "min_volume (h ! a) \<le> v"
    and "available h (a # rest) < v"
  shows "fst (attempt_buy_type_list v (a # rest) h) = [] \<and>
         volume (snd (attempt_buy_type_list v (a # rest) h) ! a) < volume (h ! a)"
proof -
  let ?amt = "fill_amount v (h ! a)"
  let ?h1 = "h[a := consume (h ! a) ?amt]"
  obtain r left h' where run: "buy_loop v [] (a # rest) h = (r, left, h')"
    by (cases "buy_loop v [] (a # rest) h") auto
  have lt: "volume (h ! a) < v"
    using assms(2,4) available_nonneg[of h rest] by (simp add: available_Cons)
  then have amt: "?amt = volume (h ! a)" by (simp add: fill_amount_def)
  have "r = []" using buy_loop_liquid[OF run] assms(4) by auto
  moreover have run': "buy_loop (v - ?amt) [make_record (h ! a) ?amt] rest ?h1 = (r, left, h')"
    using run assms(2,3) lt amt by simp
  have "volume (h' ! a) \<le> volume (?h1 ! a)"
    using buy_loop_mono[OF _ run'] lt amt by simp
  then have "volume (h' ! a) < volume (h ! a)"
    using assms(1,2) amt by (simp add: consume_def)
  ultimately show ?thesis using run by (simp add: attempt_buy_type_list_def)
qed

lemma sell_first_consumed:
  assumes "a < length h" "0 < volume (h ! a)" "min_volume (h ! a) \<le> v"
    and "cr rid lid (location_id (h ! a)) (order_range (h ! a)) = Inr True"
    and "available h (a # rest) < v"
  shows "fst (attempt_sell_type_list cr rid lid v (a # rest) h) = [] \<and>
         volume (snd (attempt_sell_type_list cr rid lid v (a # rest) h) ! a) < volume (h ! a)"
proof -
  let ?amt = "fill_amount v (h ! a)"
  let ?h1 = "h[a := consume (h ! a) ?amt]"
  obtain r left h' where run: "sell_loop cr rid lid v [] (a # rest) h = (r, left, h')"
    by (cases "sell_loop cr rid lid v [] (a # rest) h") auto
  have lt: "volume (h ! a) < v"
    using assms(2,5) available_nonneg[of h rest] by (simp add: available_Cons)
  then have amt: "?amt = volume (h ! a)" by (simp add: fill_amount_def)
  have m: "sell_match cr rid lid v (h ! a)" using assms(2,3,4) by (simp add: sell_match_def)
  have "r = []" using sell_loop_liquid[OF run] assms(5) by auto
  moreover have run': "sell_loop cr rid lid (v - ?amt) [make_record (h ! a) ?amt] rest ?h1
      = (r, left, h')"
    using run m lt amt by simp
  have "volume (h' ! a) \<le> volume (?h1 ! a)"
    using sell_loop_mono[OF _ run'] lt amt by simp
  then have "volume (h' ! a) < volume (h ! a)"
    using assms(1,2) amt by (simp add: consume_def)
  ultimately show ?thesis using run by (simp add: attempt_sell_type_list_def)
qed

text \<open>
  C9: the matcher is not atomic.  When the first order can be filled and the orders
  together offer less than the required volume, \<^verbatim>\<open>attempt_buy_type_list\<close> (and
  \<^verbatim>\<open>attempt_sell_type_list\<close>, when the first order is in range) returns the empty
  list and leaves the first order of the caller's list with less volume than before.
\<close>

theorem matcher_not_atomic:
  "a < length h \<Longrightarrow> 0 < volume (h ! a) \<Longrightarrow> min_volume (h ! a) \<le> v \<Longrightarrow>
   available h (a # rest) < v \<Longrightarrow>
     0 < available h (a # rest) \<and>
     fst (attempt_buy_type_list v (a # rest) h) = [] \<and>
     volume (snd (attempt_buy_type_list v (a # rest) h) ! a) < volume (h ! a) \<and>
     (cr rid lid (location_id (h ! a)) (order_range (h ! a)) = Inr True \<longrightarrow>
        fst (attempt_sell_type_list cr rid lid v (a # rest) h) = [] \<and>
        volume (snd (attempt_sell_type_list cr rid lid v (a # rest) h) ! a) < volume (h ! a))"
  using buy_first_consumed[of a h v rest] sell_first_consumed[of a h v cr rid lid rest]
    available_nonneg[of h rest]
  by (simp add: available_Cons)

theorem matcher_not_atomic_witness:
  "(0::nat) < length [ex_sell_order] \<and> 0 < volume ([ex_sell_order] ! 0) \<and>
   min_volume ([ex_sell_order] ! 0) \<le> 60 \<and> available [ex_sell_order] [0] < 60 \<and>
   attempt_buy_type_list 60 [0] [ex_sell_order] = ([], [ex_sell_order\<lparr>volume := 0\<rparr>]) \<and>
   volume (snd (attempt_buy_type_list 60 [0] [ex_sell_order]) ! 0) < volume ([ex_sell_order] ! 0) \<and>
   always_in_range 3 7 (location_id ([ex_buy_order] ! 0)) (order_range ([ex_buy_order] ! 0)) = Inr True \<and>
   attempt_sell_type_list always_in_range 3 7 60 [0] [ex_buy_order] = ([], [ex_buy_order\<lparr>volume := 0\<rparr>]) \<and>
   volume (snd (attempt_sell_type_list always_in_range 3 7 60 [0] [ex_buy_order]) ! 0)
     < volume ([ex_buy_order] ! 0)"
proof -
  have p1: "(0::nat) < length [ex_sell_order]" "0 < volume ([ex_sell_order] ! 0)"
    "min_volume ([ex_sell_order] ! 0) \<le> 60" "available [ex_sell_order] [0] < 60"
    by (simp_all add: ex_sell_order_def available_def)
  have p2: "(0::nat) < length [ex_buy_order]" "0 < volume ([ex_buy_order] ! 0)"
    "min_volume ([ex_buy_order] ! 0) \<le> 60" "available [ex_buy_order] [0] < 60"
    "always_in_range 3 7 (location_id ([ex_buy_order] ! 0)) (order_range ([ex_buy_order] ! 0)) = Inr True"
    by (simp_all add: ex_buy_order_def available_def always_in_range_def)
  have b: "attempt_buy_type_list 60 [0] [ex_sell_order] = ([], [ex_sell_order\<lparr>volume := 0\<rparr>])"
    by (simp add: attempt_buy_type_list_def ex_sell_order_def fill_amount_def consume_def)
  have s: "attempt_sell_type_list always_in_range 3 7 60 [0] [ex_buy_order]
      = ([], [ex_buy_order\<lparr>volume := 0\<rparr>])"
    by (simp add: attempt_sell_type_list_def sell_match_def always_in_range_def ex_buy_order_def
        fill_amount_def consume_def)
  show ?thesis
    using p1 p2 b s
      matcher_not_atomic[OF p1, of "always_in_range" 3 7]
      matcher_not_atomic[OF p2(1-4), of "always_in_range" 3 7]
    by simp
qed

section \<open>Missing market summary rows\<close>

lemma summary_volume_missing:
  "mat \<notin> fst ` set ms \<Longrightarrow> summary_volume ms mat = Inl IndexError"
proof -
  assume "mat \<notin> fst ` set ms"
  then have "filter (\<lambda>row. fst row = mat) ms = []"
    by (auto simp: filter_empty_conv)
  then show ?thesis by (simp add: summary_volume_def)
qed

lemma summary_volume_error:
  "summary_volume ms mat = Inl e \<Longrightarrow> e = IndexError"
  by (simp add: summary_volume_def split: list.splits)

lemma allocate_nth:
  "allocate rows h = (as, h') \<Longrightarrow> a \<in> set as \<Longrightarrow> h' ! a \<in> set rows"
  by (auto simp: allocate_def nth_append)

lemma extract_buy_orders_rows:
  "extract_buy_orders snapshot tid h = (as, h') \<Longrightarrow> a \<in> set as \<Longrightarrow>
     h' ! a \<in> set snapshot \<and> buy (h' ! a)"
  using allocate_nth[of "buy_side snapshot tid" h as h' a]
  by (auto simp: extract_buy_orders_def buy_side_def)

lemma best_bid_search_price:
  "best_bid_search cr rid sid as h = Some p \<Longrightarrow> \<exists>a\<in>set as. p = price (h ! a)"
  by (induction as) (auto split: sum.splits if_splits)

lemma spread_return_error:
  assumes "spread_return cr snapshot tid sid rid h = Inl e"
  shows "e = ZeroDivisionError \<and> (\<exists>row\<in>set snapshot. buy row \<and> price row = 0)"
proof -
  obtain ss h1 where s: "extract_sell_orders snapshot tid sid h = (ss, h1)"
    by (cases "extract_sell_orders snapshot tid sid h") auto
  obtain bs h2 where b: "extract_buy_orders snapshot tid h1 = (bs, h2)"
    by (cases "extract_buy_orders snapshot tid h1") auto
  from assms s b obtain bid where bid: "best_bid_search cr rid sid bs h2 = Some bid"
    and z: "bid = 0" and e: "e = ZeroDivisionError"
    by (auto simp: spread_return_def split: if_splits option.splits)
  from best_bid_search_price[OF bid] obtain a where "a \<in> set bs" "bid = price (h2 ! a)" by auto
  with extract_buy_orders_rows[OF b] z e show ?thesis by auto
qed

lemma setup_materials_missing:
  assumes "\<exists>mat\<in>set mats. materialTypeID mat \<notin> fst ` set ms"
  shows "\<exists>e. setup_materials cr snapshot rid sid ms vlimit mats st = Inl e \<and>
           (e = IndexError \<or> (\<exists>row\<in>set snapshot. buy row \<and> price row = 0))"
  using assms
proof (induction mats arbitrary: st)
  case Nil
  then show ?case by simp
next
  case (Cons next_mat rest)
  obtain orders h1 where x: "extract_buy_orders snapshot (materialTypeID next_mat) (heap st) = (orders, h1)"
    by (cases "extract_buy_orders snapshot (materialTypeID next_mat) (heap st)") auto
  show ?case
  proof (cases "summary_volume ms (materialTypeID next_mat)")
    case (Inl e)
    then show ?thesis using x summary_volume_error[OF Inl] by simp
  next
    case (Inr v)
    then have "materialTypeID next_mat \<in> fst ` set ms"
      using summary_volume_missing[of "materialTypeID next_mat" ms] by auto
    with Cons.prems have rest: "\<exists>mat\<in>set rest. materialTypeID mat \<notin> fst ` set ms" by auto
    show ?thesis
    proof (cases "spread_return cr snapshot (materialTypeID next_mat) sid rid h1")
      case (Inl e)
      then show ?thesis using x Inr spread_return_error[OF Inl] by simp
    next
      case sr: (Inr pr)
      obtain sd h2 where pr: "pr = (sd, h2)" by (cases pr) auto
      show ?thesis using x Inr sr pr Cons.IH[OF rest] by simp
    qed
  qed
qed

text \<open>
  C10: a refined material without a row in the market summary makes the attempt fail.
  When the source type has a material whose type is in no row of the market summary,
  \<^verbatim>\<open>attempt_opportunity\<close> ends with an error; when the fee divisor is not zero and no
  price of the snapshot is zero, the error is \<^verbatim>\<open>IndexError\<close>.
\<close>

theorem missing_volume_row_raises:
  assumes "map_of tmap tid = Some src"
    and "(k, mat) \<in> set (material_map src)"
    and "materialTypeID mat \<notin> fst ` set ms"
  shows "(\<exists>e. attempt_opportunity cr snapshot tid rid sid tmap tax eff stax fee ms vlimit h
              = Some (Inl e)) \<and>
         (1 - tax - fee \<noteq> 0 \<and> (\<forall>row\<in>set snapshot. price row \<noteq> 0) \<longrightarrow>
            attempt_opportunity cr snapshot tid rid sid tmap tax eff stax fee ms vlimit h
              = Some (Inl IndexError))"
proof -
  have m: "\<exists>m\<in>set (map snd (material_map src)). materialTypeID m \<notin> fst ` set ms"
    using assms(2,3) by force
  obtain orders h1 where x: "extract_sell_orders snapshot tid sid h = (orders, h1)"
    by (cases "extract_sell_orders snapshot tid sid h") auto
  let ?st = "\<lparr>heap = h1, sell_order_list = orders, buy_order_map = [],
                          all_sell_orders = [], limit_order_max = [], spread_data = [],
                          all_buy_orders = [], gross_acc = 0, cost_acc = 0\<rparr>"
  from setup_materials_missing[OF m, of cr snapshot rid sid vlimit ?st]
  obtain e where e: "setup_materials cr snapshot rid sid ms vlimit (map snd (material_map src)) ?st = Inl e"
    and w: "e = IndexError \<or> (\<exists>row\<in>set snapshot. buy row \<and> price row = 0)" by blast
  show ?thesis
  proof (cases "1 - tax - fee = 0")
    case True
    then show ?thesis
      by (simp add: attempt_opportunity_def prepare_def compute_threshold_def)
  next
    case False
    then have "prepare cr snapshot tid rid sid tmap tax eff stax fee ms vlimit h = Inl e"
      using assms(1) x e by (simp add: prepare_def compute_threshold_def lookup_def)
    then have "attempt_opportunity cr snapshot tid rid sid tmap tax eff stax fee ms vlimit h
        = Some (Inl e)" by (simp add: attempt_opportunity_def)
    then show ?thesis using w by auto
  qed
qed

theorem missing_volume_row_raises_witness:
  "map_of ex_types 1 = Some ex_source \<and>
   (2, \<lparr>materialTypeID = 2, quantity = 415\<rparr>) \<in> set (material_map ex_source) \<and>
   materialTypeID \<lparr>materialTypeID = 2, quantity = 415\<rparr> \<notin> fst ` set ([] :: market_summary) \<and>
   1 - (1/100 :: rat) - 1/40 \<noteq> 0 \<and>
   list_all (\<lambda>row. price row \<noteq> 0) ex_snapshot \<and>
   attempt_opportunity always_in_range ex_snapshot 1 3 7 ex_types (1/100) (2783/4000) (1/25) (1/40)
     [] (1/100) [] = Some (Inl IndexError)"
proof -
  have a: "map_of ex_types 1 = Some ex_source" by (simp add: ex_types_def)
  have b: "(2, \<lparr>materialTypeID = 2, quantity = 415\<rparr>) \<in> set (material_map ex_source)"
    by (simp add: ex_source_def)
  have c: "materialTypeID \<lparr>materialTypeID = 2, quantity = 415\<rparr> \<notin> fst ` set ([] :: market_summary)"
    by simp
  have d: "1 - (1/100 :: rat) - 1/40 \<noteq> 0" by simp
  have e: "list_all (\<lambda>row. price row \<noteq> 0) ex_snapshot" by (simp add: ex_snapshot_def)
  then have e': "\<forall>row\<in>set ex_snapshot. price row \<noteq> 0" by (simp add: list_all_iff)
  show ?thesis
    using a b c d e e'
      missing_volume_row_raises[OF a b c, of always_in_range ex_snapshot 3 7 "1/100" "2783/4000"
        "1/25" "1/40" "1/100" "[]"]
    by simp
qed

section \<open>The mode of a sale\<close>

lemma sell_loop_market:
  "sell_loop cr rid lid sv pot as h = (r, left, h') \<Longrightarrow> \<forall>x\<in>set pot. market x \<Longrightarrow>
     \<forall>x\<in>set r. market x"
proof (induction cr rid lid sv pot as h rule: sell_loop.induct)
  case (1 cr rid lid sv pot h)
  then show ?case by simp
next
  case (2 cr rid lid sv pot a rest h)
  then show ?case by (auto simp: make_record_def split: if_splits)
qed

lemma attempt_sell_market:
  "attempt_sell_type_list cr rid lid sv as h = (sold, h') \<Longrightarrow> x \<in> set sold \<Longrightarrow> market x"
  using sell_loop_market[of cr rid lid sv "[]" as h]
  by (auto simp: attempt_sell_type_list_def split: prod.splits)

lemma sell_material_mode:
  assumes "sell_material E m st = Inr (by_limit, sold, st')"
  shows "\<exists>sd. map_of (spread_data st) m = Some sd \<and> by_limit = (limit_threshold E < sr_value sd)"
    and "\<forall>x\<in>set sold. market x = (\<not> by_limit)"
proof -
  from assms obtain sd where sd: "map_of (spread_data st) m = Some sd"
    by (auto simp: sell_material_def lookup_def split: option.splits)
  from assms obtain mat where mat: "map_of (materials E) m = Some mat"
    by (auto simp: sell_material_def lookup_def sd split: option.splits)
  show "\<exists>sd. map_of (spread_data st) m = Some sd \<and> by_limit = (limit_threshold E < sr_value sd)"
    using assms sd mat
    by (auto simp: sell_material_def lookup_def limit_sell_def
        split: option.splits if_splits prod.splits)
  show "\<forall>x\<in>set sold. market x = (\<not> by_limit)"
  proof (cases "limit_sell E sd")
    case True
    then show ?thesis using assms sd mat
      by (auto simp: sell_material_def lookup_def split: option.splits if_splits)
  next
    case False
    then show ?thesis using assms sd mat
      by (auto simp: sell_material_def lookup_def split: option.splits prod.splits
          dest: attempt_sell_market)
  qed
qed

lemma setup_materials_same: 
  "setup_materials cr snapshot rid sid ms vlimit mats st = Inr st' \<Longrightarrow>
     sell_order_list st' = sell_order_list st \<and> all_buy_orders st' = all_buy_orders st \<and>
     gross_acc st' = gross_acc st \<and> cost_acc st' = cost_acc st"
proof (induction mats arbitrary: st)
  case Nil
  then show ?case by simp
next
  case (Cons next_mat rest)
  then show ?case
    by (fastforce split: prod.splits sum.splits)
qed

lemma prepare_threshold:
  "prepare cr snapshot tid rid sid tmap tax eff stax fee ms vlimit h = Inr (E, st0) \<Longrightarrow>
     limit_threshold E = fee / (1 - tax - fee) \<and> 1 - tax - fee \<noteq> 0"
  by (auto simp: prepare_def compute_threshold_def split: if_splits sum.splits prod.splits)

lemma ex_prepare:
  "prepare always_in_range ex_snapshot 1 3 7 ex_types (1/100) (2783/4000) (1/25) (1/40)
     ex_summary (1/100) [] = Inr (ex_env, ex_state)"
  by (simp add: prepare_def compute_threshold_def lookup_def ex_types_def ex_source_def
      extract_sell_orders_def extract_buy_orders_def sell_side_def buy_side_def allocate_def ex_snapshot_def
      summary_volume_def ex_summary_def spread_return_def always_in_range_def
      ex_env_def ex_state_def upt_rec)

section \<open>Rounds and their totals\<close>

lemma sell_material_totals:
  "sell_material E m st = Inr (fl, sold, st') \<Longrightarrow>
     gross_acc st' = gross_acc st \<and> cost_acc st' = cost_acc st \<and>
     all_buy_orders st' = all_buy_orders st \<and> all_sell_orders st' = all_sell_orders st"
  by (auto simp: sell_material_def split: sum.splits if_splits option.splits prod.splits)

lemma sell_materials_totals:
  "sell_materials E ms so cg cc st = Inr (so', cg', cc', st') \<Longrightarrow>
     gross_acc st' = gross_acc st \<and> cost_acc st' = cost_acc st \<and>
     all_buy_orders st' = all_buy_orders st \<and> all_sell_orders st' = all_sell_orders st"
proof (induction ms arbitrary: so cg cc st)
  case Nil
  then show ?case by simp
next
  case (Cons m ms)
  from Cons.prems obtain fl sold st1 where sm: "sell_material E m st = Inr (fl, sold, st1)"
    by (auto split: sum.splits)
  show ?case
  proof (cases "length sold = 0")
    case True
    with Cons.prems sm have "st' = st1" by simp
    then show ?thesis using sell_material_totals[OF sm] by simp
  next
    case False
    with Cons.prems sm have "sell_materials E ms (AList.update m sold so)
        (cg + gross_ratio E fl * order_value sold) (cc + station_tax E * order_value sold) st1
        = Inr (so', cg', cc', st')" by simp
    from Cons.IH[OF this] sell_material_totals[OF sm] show ?thesis by simp
  qed
qed

lemma one_round_traded:
  assumes "one_round E st = Inr (Traded bought so cg cc st2)"
  shows "bought \<noteq> [] \<and> gross_acc st2 = gross_acc st \<and> cost_acc st2 = cost_acc st \<and>
     all_buy_orders st2 = all_buy_orders st \<and> all_sell_orders st2 = all_sell_orders st"
proof -
  obtain b h1 where b: "attempt_buy_type_list (required_volume E) (sell_order_list st) (heap st) = (b, h1)"
    by (cases "attempt_buy_type_list (required_volume E) (sell_order_list st) (heap st)") auto
  from assms b have nb: "b \<noteq> []" and bb: "bought = b"
    by (auto simp: one_round_def split: if_splits sum.splits prod.splits)
  from assms b nb have "sell_materials E (map fst (buy_order_map st)) [] 0 (order_value b)
      (st\<lparr>heap := h1\<rparr>) = Inr (so, cg, cc, st2)"
    by (auto simp: one_round_def split: if_splits sum.splits prod.splits)
  from sell_materials_totals[OF this] nb bb show ?thesis by simp
qed

lemma one_round_stop:
  assumes "one_round E st = Inr (Stop st2)"
  shows "gross_acc st2 = gross_acc st \<and> cost_acc st2 = cost_acc st \<and>
     all_buy_orders st2 = all_buy_orders st \<and> all_sell_orders st2 = all_sell_orders st"
proof -
  obtain b h1 where b: "attempt_buy_type_list (required_volume E) (sell_order_list st) (heap st) = (b, h1)"
    by (cases "attempt_buy_type_list (required_volume E) (sell_order_list st) (heap st)") auto
  show ?thesis
  proof (cases "length b = 0")
    case True
    with assms b show ?thesis by (auto simp: one_round_def)
  next
    case False
    with assms b obtain so cg cc where "sell_materials E (map fst (buy_order_map st)) [] 0 (order_value b)
      (st\<lparr>heap := h1\<rparr>) = Inr (so, cg, cc, st2)"
      by (auto simp: one_round_def split: if_splits sum.splits prod.splits)
    from sell_materials_totals[OF this] show ?thesis by simp
  qed
qed

lemma commit_totals:
  "commit bought so cg cc st = Inr st' \<Longrightarrow>
     gross_acc st' = gross_acc st + cg \<and> cost_acc st' = cost_acc st + cc \<and>
     all_buy_orders st' = all_buy_orders st @ bought"
  by (auto simp: commit_def split: sum.splits)

lemma commit_sells:
  "commit bought so cg cc st = Inr st' \<Longrightarrow> extend_all so (all_sell_orders st) = Inr (all_sell_orders st')"
  by (auto simp: commit_def split: sum.splits)

lemma rounds_totals_aux:
  assumes "rounds E st = Some y"
  shows "\<forall>st'. y = Inr st' \<longrightarrow> round_progress st st'"
proof (rule rounds.raw_induct[where P = "\<lambda>E st y. \<forall>st'. y = Inr st' \<longrightarrow> round_progress st st'",
      OF _ assms])
  fix rnds E st y
  assume 1: "\<And>E st y. rnds E st = Some y \<Longrightarrow> \<forall>st'. y = Inr st' \<longrightarrow> round_progress st st'"
    "(case one_round E st of
        Inl e \<Rightarrow> Some (Inl e)
      | Inr (Stop st') \<Rightarrow> Some (Inr st')
      | Inr (Traded bought sold current_gross current_cost st') \<Rightarrow>
          if current_gross > current_cost then
            (case commit bought sold current_gross current_cost st' of
               Inl e \<Rightarrow> Some (Inl e)
             | Inr st'' \<Rightarrow> rnds E st'')
          else Some (Inr st')) = Some y"
  show "\<forall>st'. y = Inr st' \<longrightarrow> round_progress st st'"
  proof (intro allI impI)

    fix st'
    assume y: "y = Inr st'"
    show "round_progress st st'"
    proof (cases "one_round E st")
      case (Inl e)
      with 1(2) y show ?thesis by simp
    next
      case (Inr out)
      show ?thesis
      proof (cases out)
        case (Stop st2)
        with Inr 1(2) y have "st' = st2" by simp
        with one_round_stop[of E st st2] Inr Stop show ?thesis
          by (simp add: unchanged_totals_def round_progress_def)
      next
        case (Traded bought so cg cc st2)
        note tr = one_round_traded[OF Inr[unfolded Traded]]
        show ?thesis
        proof (cases "cc < cg")
          case False
          with Inr Traded 1(2) y have "st' = st2" by simp
          with tr show ?thesis by (simp add: unchanged_totals_def round_progress_def)
        next
          case True
          with Inr Traded 1(2) y obtain st3 where c: "commit bought so cg cc st2 = Inr st3"
            and r: "rnds E st3 = Some (Inr st')"
            by (auto split: sum.splits)
          note ct = commit_totals[OF c]
          from 1(1)[OF r] have "round_progress st3 st'" by simp
          then show ?thesis using ct tr
            by (auto simp: unchanged_totals_def round_progress_def)
        qed
      qed
    qed
  qed
qed

lemma rounds_totals:
  "rounds E st = Some (Inr st') \<Longrightarrow> round_progress st st'"
  using rounds_totals_aux by blast

text \<open>
  C3: a round is committed only when its gross is above its cost.  A round that traded
  with a gross not above its cost ends the loop with the lists and totals as they were;
  a round with a gross above its cost adds its buys to the list of buys, its sells to the
  lists of sells, its gross and its cost to the totals, and the loop goes on.  Over the
  whole loop, either nothing was committed or the list of buys has grown.
\<close>

theorem unprofitable_round_not_committed:
  "(one_round E st = Inr (Traded bought sold cg cc st2) \<longrightarrow>
      (cg \<le> cc \<longrightarrow> rounds E st = Some (Inr st2) \<and> unchanged_totals st st2) \<and>
      (cc < cg \<longrightarrow>
         (\<forall>st3. commit bought sold cg cc st2 = Inr st3 \<longrightarrow>
            rounds E st = rounds E st3 \<and>
            gross_acc st3 = gross_acc st + cg \<and> cost_acc st3 = cost_acc st + cc \<and>
            all_buy_orders st3 = all_buy_orders st @ bought \<and>
            extend_all sold (all_sell_orders st) = Inr (all_sell_orders st3)))) \<and>
   (rounds E st = Some (Inr st') \<longrightarrow>
      unchanged_totals st st' \<or> length (all_buy_orders st) < length (all_buy_orders st'))"
proof (intro conjI impI allI)
  assume t: "one_round E st = Inr (Traded bought sold cg cc st2)" and le: "cg \<le> cc"
  show "rounds E st = Some (Inr st2)"
    using t le by (subst rounds.simps) simp
  show "unchanged_totals st st2"
    using one_round_traded[OF t] by (simp add: unchanged_totals_def)
next
  fix st3
  assume t: "one_round E st = Inr (Traded bought sold cg cc st2)" and lt: "cc < cg"
    and c: "commit bought sold cg cc st2 = Inr st3"
  show "rounds E st = rounds E st3"
    using t lt c by (subst rounds.simps) simp
  show "gross_acc st3 = gross_acc st + cg" "cost_acc st3 = cost_acc st + cc"
    "all_buy_orders st3 = all_buy_orders st @ bought"
    using commit_totals[OF c] one_round_traded[OF t] by simp_all
  show "extend_all sold (all_sell_orders st) = Inr (all_sell_orders st3)"
    using commit_sells[OF c] one_round_traded[OF t] by simp
next
  assume "rounds E st = Some (Inr st')"
  from rounds_totals[OF this]
  show "unchanged_totals st st' \<or> length (all_buy_orders st) < length (all_buy_orders st')"
    by (simp add: round_progress_def)
qed

lemmas ex_eval = attempt_buy_type_list_def attempt_sell_type_list_def fill_amount_def
  make_record_def consume_def sell_match_def always_in_range_def sell_material_def lookup_def
  limit_sell_def gross_ratio_def py_int_def floor_unique order_value_def one_round_def
  ex_env_def ex_state_def ex_snapshot_def ex_bought_def ex_sold_def

lemma ex_round: "one_round ex_env ex_state =
    Inr (Traded ex_bought ex_sold (145908 / 5) (11048 / 5) ex_traded_state)"
  by (simp add: ex_eval ex_traded_state_def)

lemma ex_dear_round: "one_round ex_env ex_dear_state =
    Inr (Traded [\<lparr>rec_price = 1000, rec_volume = 100, market = True\<rparr>] ex_sold
      (145908 / 5) (506048 / 5) ex_dear_traded_state)"
  by (simp add: ex_eval ex_dear_state_def ex_dear_traded_state_def)

lemma ex_commit: "commit ex_bought ex_sold (145908 / 5) (11048 / 5) ex_traded_state = Inr ex_final_state"
  by (simp add: commit_def ex_final_state_def ex_traded_state_def ex_state_def ex_sold_def
      ex_bought_def)

lemma ex_last_round: "one_round ex_env ex_final_state = Inr (Stop ex_final_state)"
  by (simp add: ex_eval ex_final_state_def ex_traded_state_def)

lemma ex_rounds_final: "rounds ex_env ex_final_state = Some (Inr ex_final_state)"
  by (subst rounds.simps) (simp add: ex_last_round)

theorem unprofitable_round_not_committed_witness:
  "one_round ex_env ex_dear_state =
     Inr (Traded [\<lparr>rec_price = 1000, rec_volume = 100, market = True\<rparr>] ex_sold
       (145908 / 5) (506048 / 5) ex_dear_traded_state) \<and>
   (145908 / 5 :: rat) \<le> 506048 / 5 \<and>
   rounds ex_env ex_dear_state = Some (Inr ex_dear_traded_state) \<and>
   unchanged_totals ex_dear_state ex_dear_traded_state \<and>
   one_round ex_env ex_state =
     Inr (Traded ex_bought ex_sold (145908 / 5) (11048 / 5) ex_traded_state) \<and>
   (11048 / 5 :: rat) < 145908 / 5 \<and>
   commit ex_bought ex_sold (145908 / 5) (11048 / 5) ex_traded_state = Inr ex_final_state \<and>
   rounds ex_env ex_state = Some (Inr ex_final_state) \<and>
   gross_acc ex_final_state = gross_acc ex_state + 145908 / 5 \<and>
   cost_acc ex_final_state = cost_acc ex_state + 11048 / 5 \<and>
   all_buy_orders ex_final_state = all_buy_orders ex_state @ ex_bought \<and>
   extend_all ex_sold (all_sell_orders ex_state) = Inr (all_sell_orders ex_final_state) \<and>
   length (all_buy_orders ex_state) < length (all_buy_orders ex_final_state)"
  using unprofitable_round_not_committed[of ex_env ex_dear_state
      "[\<lparr>rec_price = 1000, rec_volume = 100, market = True\<rparr>]" ex_sold "145908 / 5" "506048 / 5"
      ex_dear_traded_state ex_dear_traded_state]
    unprofitable_round_not_committed[of ex_env ex_state ex_bought ex_sold "145908 / 5" "11048 / 5"
      ex_traded_state ex_final_state]
    ex_round ex_dear_round ex_commit ex_rounds_final
  by (simp add: ex_final_state_def ex_traded_state_def ex_state_def ex_bought_def)

lemma prepare_initial:
  "prepare cr snapshot tid rid sid tmap tax eff stax fee ms vlimit h = Inr (E, st0) \<Longrightarrow>
     all_buy_orders st0 = [] \<and> gross_acc st0 = 0 \<and> cost_acc st0 = 0"
  by (auto simp: prepare_def split: sum.splits prod.splits dest!: setup_materials_same)

lemma report_Some:
  "report st = Some opp \<Longrightarrow>
     profit opp = gross opp - cost opp \<and> margin opp = np_divide (profit opp) (cost opp) \<and>
     cost opp < gross opp \<and> gross opp = gross_acc st \<and> cost opp = cost_acc st"
  by (auto simp: report_def split: if_splits)

lemma report_None: "(report st = None) = (gross_acc st \<le> cost_acc st)"
  by (auto simp: report_def)

lemma ex_dear_prepare:
  "prepare always_in_range ex_dear_snapshot 1 3 7 ex_types (1/100) (2783/4000) (1/25) (1/40)
     ex_summary (1/100) [] = Inr (ex_env, ex_dear_state)"
  by (simp add: prepare_def compute_threshold_def lookup_def ex_types_def ex_source_def
      extract_sell_orders_def extract_buy_orders_def sell_side_def buy_side_def allocate_def ex_snapshot_def
      summary_volume_def ex_summary_def spread_return_def always_in_range_def
      ex_env_def ex_state_def ex_dear_state_def ex_dear_snapshot_def upt_rec)

lemma ex_rounds: "rounds ex_env ex_state = Some (Inr ex_final_state)"
  by (subst rounds.simps) (simp add: ex_round ex_commit ex_rounds_final)

lemma ex_dear_rounds: "rounds ex_env ex_dear_state = Some (Inr ex_dear_traded_state)"
  by (subst rounds.simps) (simp add: ex_dear_round)

lemma ex_report: "report ex_final_state = Some ex_opportunity"
  by (simp add: report_def ex_final_state_def ex_traded_state_def ex_state_def ex_opportunity_def
      np_divide_def compress_order_list_def add_to_order_map_def ex_bought_def ex_sold_def)

lemma ex_dear_report: "report ex_dear_traded_state = None"
  by (simp add: report_def ex_dear_traded_state_def ex_state_def)

lemma ex_attempt:
  "attempt_opportunity always_in_range ex_snapshot 1 3 7 ex_types (1/100) (2783/4000) (1/25) (1/40)
     ex_summary (1/100) [] = Some (Inr (Some ex_opportunity, heap ex_final_state))"
  unfolding attempt_opportunity_def ex_prepare by (simp add: ex_rounds ex_report)

section \<open>Deduplication\<close>

lemma stamp_loop_subset: "set (stamp_loop l ts) \<subseteq> set ts"
  by (induction l ts rule: stamp_loop.induct) auto

lemma stamp_loop_append:
  "stamp_loop l (as @ bs) =
     stamp_loop l as @ stamp_loop (if as = [] then l else Some (last as)) bs"
  by (induction l as rule: stamp_loop.induct) auto

lemma stamp_loop_member:
  assumes "sorted_wrt (<) (A @ t # B)"
  shows "t \<in> set (stamp_loop None (A @ t # B)) \<longleftrightarrow> (A = [] \<or> five_minutes < t - last A)"
proof -
  have a: "t \<notin> set (stamp_loop None A)"
    using assms stamp_loop_subset[of None A] by (auto simp: sorted_wrt_append)
  have b: "t \<notin> set (stamp_loop (Some t) B)"
    using assms stamp_loop_subset[of "Some t" B] by (auto simp: sorted_wrt_append)
  show ?thesis
    using a b by (cases "A = []") (auto simp: stamp_loop_append)
qed

lemma chronological_type:
  assumes "chronological opps" "x \<in> set opps"
  shows "sorted_wrt (<) (map opp_time (filter (\<lambda>y. opp_type y = opp_type x) opps))"
  using assms by (auto simp: chronological_def)

lemma retained_iff:
  assumes "chronological (pre @ x # post)"
  shows "x \<in> set (clean_opportunities (pre @ x # post)) \<longleftrightarrow>
         (case last_of_type (opp_type x) pre of
            None \<Rightarrow> True
          | Some y \<Rightarrow> five_minutes < opp_time x - opp_time y)"
proof -
  let ?P = "\<lambda>y. opp_type y = opp_type x"
  let ?A = "map opp_time (filter ?P pre)"
  let ?B = "map opp_time (filter ?P post)"
  have s: "sorted_wrt (<) (?A @ opp_time x # ?B)"
    using chronological_type[OF assms, of x] by simp
  have "x \<in> set (clean_opportunities (pre @ x # post)) \<longleftrightarrow>
        opp_time x \<in> set (stamp_loop None (?A @ opp_time x # ?B))"
    by (simp add: clean_opportunities_def stamp_map_def)
  also have "\<dots> \<longleftrightarrow> (?A = [] \<or> five_minutes < opp_time x - last ?A)"
    by (rule stamp_loop_member[OF s])
  also have "\<dots> \<longleftrightarrow> (case last_of_type (opp_type x) pre of
            None \<Rightarrow> True
          | Some y \<Rightarrow> five_minutes < opp_time x - opp_time y)"
  proof (cases "filter ?P pre")
    case Nil
    then show ?thesis by (simp add: last_of_type_def)
  next
    case (Cons y ys)
    then have "last ?A = opp_time (last (y # ys))" by (simp add: last_map)
    then show ?thesis using Cons by (simp add: last_of_type_def)
  qed
  finally show ?thesis .
qed

lemma two_in_list:
  "x \<in> set xs \<Longrightarrow> y \<in> set xs \<Longrightarrow> x \<noteq> y \<Longrightarrow>
     (\<exists>pre post. xs = pre @ y # post \<and> x \<in> set pre) \<or>
     (\<exists>pre post. xs = pre @ x # post \<and> y \<in> set pre)"
proof (induction xs)
  case Nil
  then show ?case by simp
next
  case (Cons z zs)
  show ?case
  proof (cases "z = x")
    case True
    with Cons.prems have "y \<in> set zs" by auto
    then obtain p q where "zs = p @ y # q" by (auto simp: in_set_conv_decomp)
    then have "z # zs = (z # p) @ y # q \<and> x \<in> set (z # p)" using True by simp
    then show ?thesis by blast
  next
    case zx: False
    show ?thesis
    proof (cases "z = y")
      case True
      with Cons.prems zx have "x \<in> set zs" by auto
      then obtain p q where "zs = p @ x # q" by (auto simp: in_set_conv_decomp)
      then have "z # zs = (z # p) @ x # q \<and> y \<in> set (z # p)" using True by simp
      then show ?thesis by blast
    next
      case False
      with zx Cons.prems have "x \<in> set zs" "y \<in> set zs" by auto
      from Cons.IH[OF this Cons.prems(3)] show ?thesis
      proof
        assume "\<exists>pre post. zs = pre @ y # post \<and> x \<in> set pre"
        then obtain p q where "zs = p @ y # q" "x \<in> set p" by blast
        then have "z # zs = (z # p) @ y # q \<and> x \<in> set (z # p)" by simp
        then show ?thesis by blast
      next
        assume "\<exists>pre post. zs = pre @ x # post \<and> y \<in> set pre"
        then obtain p q where "zs = p @ x # q" "y \<in> set p" by blast
        then have "z # zs = (z # p) @ x # q \<and> y \<in> set (z # p)" by simp
        then show ?thesis by blast
      qed
    qed
  qed
qed

lemma sorted_le_last:
  "sorted_wrt (<) (ts :: int list) \<Longrightarrow> t \<in> set ts \<Longrightarrow> t \<le> last ts"
proof (induction ts)
  case Nil
  then show ?case by simp
next
  case (Cons u us)
  show ?case
  proof (cases "us = []")
    case True
    with Cons.prems show ?thesis by simp
  next
    case False
    then have l: "last us \<in> set us" by simp
    show ?thesis
    proof (cases "t = u")
      case True
      from Cons.prems(1) have "\<forall>x\<in>set us. u < x" by simp
      with l have "u < last us" by blast
      with True False show ?thesis by simp
    next
      case tu: False
      with Cons show ?thesis using False by simp
    qed
  qed
qed

lemma retained_after:
  assumes c: "chronological (pre @ y # post)"
    and x: "x \<in> set pre" and ty: "opp_type x = opp_type y"
    and r: "y \<in> set (clean_opportunities (pre @ y # post))"
  shows "five_minutes < opp_time y - opp_time x"
proof -
  let ?P = "\<lambda>z. opp_type z = opp_type y"
  let ?A = "map opp_time (filter ?P pre)"
  have s: "sorted_wrt (<) (?A @ opp_time y # map opp_time (filter ?P post))"
    using chronological_type[OF c, of y] by simp
  then have sa: "sorted_wrt (<) ?A" by (simp add: sorted_wrt_append)
  have xin: "x \<in> set (filter ?P pre)" using x ty by simp
  then obtain z zs where f: "filter ?P pre = z # zs" by (cases "filter ?P pre") auto
  have "opp_time x \<in> set ?A" using xin by (simp del: set_filter)
  from sorted_le_last[OF sa this] have "opp_time x \<le> last ?A" .
  also have "last ?A = opp_time (last (z # zs))" using f by (simp add: last_map)
  finally have "opp_time x \<le> opp_time (last (z # zs))" .
  moreover have "five_minutes < opp_time y - opp_time (last (z # zs))"
    using retained_iff[OF c] r f by (simp add: last_of_type_def)
  ultimately show ?thesis by simp
qed

lemma clean_subset: "set (clean_opportunities opps) \<subseteq> set opps"
  by (auto simp: clean_opportunities_def)

text \<open>
  C5, as amended: for a list in which the times of each type grow, two retained
  opportunities of one type are more than five minutes apart, and an opportunity is
  dropped exactly when it is within five minutes of the opportunity of its type just
  before it in the list, retained or not.
\<close>

theorem dedup_by_preceding_gap:
  assumes "chronological opps"
  shows "(\<forall>x\<in>set (clean_opportunities opps). \<forall>y\<in>set (clean_opportunities opps).
            opp_type x = opp_type y \<longrightarrow> x \<noteq> y \<longrightarrow> five_minutes < \<bar>opp_time x - opp_time y\<bar>) \<and>
         (\<forall>pre x post. opps = pre @ x # post \<longrightarrow>
            (x \<notin> set (clean_opportunities opps)) =
            (case last_of_type (opp_type x) pre of
               None \<Rightarrow> False
             | Some y \<Rightarrow> opp_time x - opp_time y \<le> five_minutes))"
proof (intro conjI ballI allI impI)
  fix x y
  assume x: "x \<in> set (clean_opportunities opps)" and y: "y \<in> set (clean_opportunities opps)"
    and ty: "opp_type x = opp_type y" and ne: "x \<noteq> y"
  from x y clean_subset have "x \<in> set opps" "y \<in> set opps" by auto
  from two_in_list[OF this ne] show "five_minutes < \<bar>opp_time x - opp_time y\<bar>"
  proof
    assume "\<exists>pre post. opps = pre @ y # post \<and> x \<in> set pre"
    then obtain pre post where o: "opps = pre @ y # post" and "x \<in> set pre" by blast
    from retained_after[OF assms[unfolded o] this(2) ty y[unfolded o]] show ?thesis by simp
  next
    assume "\<exists>pre post. opps = pre @ x # post \<and> y \<in> set pre"
    then obtain pre post where o: "opps = pre @ x # post" and "y \<in> set pre" by blast
    from retained_after[OF assms[unfolded o] this(2) ty[symmetric] x[unfolded o]]
    show ?thesis by simp
  qed
next
  fix pre x post
  assume o: "opps = pre @ x # post"
  show "(x \<notin> set (clean_opportunities opps)) =
            (case last_of_type (opp_type x) pre of
               None \<Rightarrow> False
             | Some y \<Rightarrow> opp_time x - opp_time y \<le> five_minutes)"
    using retained_iff[OF assms[unfolded o]] unfolding o
    by (auto split: option.splits)
qed

text \<open>
  Opportunities of one type at 0, 240 and 480 seconds: the code retains the first only,
  the rule of the specification retains the third as well, which is more than five
  minutes after the retained first.  On a list whose times do not grow, two retained
  opportunities can be within five minutes of each other.
\<close>

theorem dedup_counterexample:
  "clean_opportunities [ex_found 0, ex_found 240, ex_found 480] = [ex_found 0] \<and>
   spec_clean_opportunities [ex_found 0, ex_found 240, ex_found 480] = [ex_found 0, ex_found 480] \<and>
   \<not> opp_time (ex_found 480) - opp_time (ex_found 0) \<le> five_minutes \<and>
   clean_opportunities [ex_found 600, ex_found 0, ex_found 360] = [ex_found 600, ex_found 360] \<and>
   \<not> five_minutes < \<bar>opp_time (ex_found 600) - opp_time (ex_found 360)\<bar>"
  by (simp add: clean_opportunities_def spec_clean_opportunities_def stamp_map_def ex_found_def
      five_minutes_def)

theorem dedup_by_preceding_gap_witness:
  "chronological [ex_found 0, ex_found 240, ex_found 480, ex_found 1000] \<and>
   clean_opportunities [ex_found 0, ex_found 240, ex_found 480, ex_found 1000]
     = [ex_found 0, ex_found 1000] \<and>
   five_minutes < \<bar>opp_time (ex_found 0) - opp_time (ex_found 1000)\<bar> \<and>
   last_of_type (opp_type (ex_found 480)) [ex_found 0, ex_found 240] = Some (ex_found 240) \<and>
   opp_time (ex_found 480) - opp_time (ex_found 240) \<le> five_minutes \<and>
   ex_found 480 \<notin> set (clean_opportunities [ex_found 0, ex_found 240, ex_found 480, ex_found 1000])"
proof -
  have c: "chronological [ex_found 0, ex_found 240, ex_found 480, ex_found 1000]"
    by (simp add: chronological_def ex_found_def)
  have e: "clean_opportunities [ex_found 0, ex_found 240, ex_found 480, ex_found 1000]
     = [ex_found 0, ex_found 1000]"
    by (simp add: clean_opportunities_def stamp_map_def ex_found_def five_minutes_def)
  have l: "last_of_type (opp_type (ex_found 480)) [ex_found 0, ex_found 240] = Some (ex_found 240)"
    by (simp add: last_of_type_def ex_found_def)
  have d: "[ex_found 0, ex_found 240, ex_found 480, ex_found 1000]
      = [ex_found 0, ex_found 240] @ ex_found 480 # [ex_found 1000]" by simp
  note t = dedup_by_preceding_gap[OF c]
  from t have g: "five_minutes < \<bar>opp_time (ex_found 0) - opp_time (ex_found 1000)\<bar>"
    unfolding e by (simp add: ex_found_def)
  from t d l have n: "(ex_found 480 \<notin> set (clean_opportunities
        [ex_found 0, ex_found 240, ex_found 480, ex_found 1000]))
      = (opp_time (ex_found 480) - opp_time (ex_found 240) \<le> five_minutes)"
    by (metis option.simps(5))
  have w: "opp_time (ex_found 480) - opp_time (ex_found 240) \<le> five_minutes"
    by (simp add: ex_found_def five_minutes_def)
  show ?thesis using c e g l w n by blast
qed

section \<open>Division by a zero cost\<close>

lemma np_divide_None: "(np_divide a b = None) = (b = 0)"
  by (simp add: np_divide_def)

text \<open>
  C6, as amended: nothing guards a zero cost.  The margin of a returned opportunity is
  the quotient \<^verbatim>\<open>(gross - cost) / cost\<close> and the aggregate return is
  \<^verbatim>\<open>total_profit / total_cost\<close>; each is a division by zero exactly when the cost is
  zero.
\<close>

theorem zero_cost_divides:
  "(attempt_opportunity cr snapshot tid rid sid tmap tax eff stax fee ms vlimit h
       = Some (Inr (Some opp, h')) \<longrightarrow>
      margin opp = np_divide (gross opp - cost opp) (cost opp) \<and>
      (margin opp = None) = (cost opp = 0)) \<and>
   total_return opps = np_divide (sum_list (map profit opps)) (sum_list (map cost opps)) \<and>
   (total_return opps = None) = (sum_list (map cost opps) = 0)"
proof (intro conjI impI)
  assume "attempt_opportunity cr snapshot tid rid sid tmap tax eff stax fee ms vlimit h
       = Some (Inr (Some opp, h'))"
  then obtain st where "report st = Some opp"
    by (auto simp: attempt_opportunity_def split: sum.splits prod.splits option.splits)
  from report_Some[OF this]
  show "margin opp = np_divide (gross opp - cost opp) (cost opp)" by simp
  then show "(margin opp = None) = (cost opp = 0)" by (simp add: np_divide_None)
next
  show "total_return opps = np_divide (sum_list (map profit opps)) (sum_list (map cost opps))"
    by (simp add: total_return_def)
  show "(total_return opps = None) = (sum_list (map cost opps) = 0)"
    by (simp add: total_return_def np_divide_None)
qed

lemma ex_free_prepare:
  "prepare always_in_range ex_free_snapshot 1 3 7 ex_types (1/100) (2783/4000) 0 (1/40)
     ex_summary (1/100) [] = Inr (ex_free_env, ex_free_state)"
  by (simp add: prepare_def compute_threshold_def lookup_def ex_types_def ex_source_def
      extract_sell_orders_def extract_buy_orders_def sell_side_def buy_side_def allocate_def ex_snapshot_def
      summary_volume_def ex_summary_def spread_return_def always_in_range_def
      ex_env_def ex_state_def ex_free_state_def ex_free_env_def ex_free_snapshot_def upt_rec)

lemma ex_free_round: "one_round ex_free_env ex_free_state =
    Inr (Traded ex_free_bought ex_sold (145908 / 5) 0 ex_free_traded_state)"
  by (simp add: ex_eval ex_free_env_def ex_free_state_def ex_free_traded_state_def
      ex_free_bought_def)

lemma ex_free_commit:
  "commit ex_free_bought ex_sold (145908 / 5) 0 ex_free_traded_state = Inr ex_free_final_state"
  by (simp add: commit_def ex_free_final_state_def ex_free_traded_state_def ex_state_def
      ex_sold_def ex_free_bought_def)

lemma ex_free_last_round: "one_round ex_free_env ex_free_final_state = Inr (Stop ex_free_final_state)"
  by (simp add: ex_eval ex_free_env_def ex_free_final_state_def ex_free_traded_state_def)

lemma ex_free_rounds: "rounds ex_free_env ex_free_state = Some (Inr ex_free_final_state)"
  by (subst rounds.simps, simp add: ex_free_round ex_free_commit, subst rounds.simps,
      simp add: ex_free_last_round)

lemma ex_free_report: "report ex_free_final_state = Some ex_free_opportunity"
  by (simp add: report_def ex_free_final_state_def ex_free_traded_state_def ex_state_def
      ex_free_opportunity_def np_divide_def compress_order_list_def add_to_order_map_def
      ex_free_bought_def ex_sold_def)

lemma ex_free_attempt:
  "attempt_opportunity always_in_range ex_free_snapshot 1 3 7 ex_types (1/100) (2783/4000) 0 (1/40)
     ex_summary (1/100) [] = Some (Inr (Some ex_free_opportunity, heap ex_free_final_state))"
  unfolding attempt_opportunity_def ex_free_prepare by (simp add: ex_free_rounds ex_free_report)

text \<open>
  A source bought at the price 0 with a station tax of 0: the opportunity is returned
  with cost 0 and its margin is a division by zero.  The aggregate return of the empty
  list divides zero by zero.
\<close>

theorem zero_cost_guard_counterexample:
  "attempt_opportunity always_in_range ex_free_snapshot 1 3 7 ex_types (1/100) (2783/4000) 0 (1/40)
     ex_summary (1/100) [] = Some (Inr (Some ex_free_opportunity, heap ex_free_final_state)) \<and>
   cost ex_free_opportunity = 0 \<and>
   margin ex_free_opportunity = np_divide (gross ex_free_opportunity - 0) 0 \<and>
   margin ex_free_opportunity = None \<and>
   sum_list (map cost ([] :: found list)) = 0 \<and>
   total_return [] = np_divide 0 0 \<and>
   total_return [] = None"
  using ex_free_attempt
  by (simp add: ex_free_opportunity_def total_return_def np_divide_def)

theorem zero_cost_divides_witness:
  "attempt_opportunity always_in_range ex_free_snapshot 1 3 7 ex_types (1/100) (2783/4000) 0 (1/40)
     ex_summary (1/100) [] = Some (Inr (Some ex_free_opportunity, heap ex_free_final_state)) \<and>
   margin ex_free_opportunity = None \<and> cost ex_free_opportunity = 0 \<and>
   attempt_opportunity always_in_range ex_snapshot 1 3 7 ex_types (1/100) (2783/4000) (1/25) (1/40)
     ex_summary (1/100) [] = Some (Inr (Some ex_opportunity, heap ex_final_state)) \<and>
   margin ex_opportunity = Some ((gross ex_opportunity - cost ex_opportunity) / cost ex_opportunity)"
proof -
  note a = ex_attempt
  from ex_free_attempt
    zero_cost_divides[of always_in_range ex_free_snapshot 1 3 7 ex_types "1/100" "2783/4000" 0
      "1/40" ex_summary "1/100" "[]" ex_free_opportunity "heap ex_free_final_state" "[]"]
  have f: "(margin ex_free_opportunity = None) = (cost ex_free_opportunity = 0)" by blast
  have z: "cost ex_free_opportunity = 0" by (simp add: ex_free_opportunity_def)
  from a
    zero_cost_divides[of always_in_range ex_snapshot 1 3 7 ex_types "1/100" "2783/4000" "1/25"
      "1/40" ex_summary "1/100" "[]" ex_opportunity "heap ex_final_state" "[]"]
  have g: "margin ex_opportunity
      = np_divide (gross ex_opportunity - cost ex_opportunity) (cost ex_opportunity)" by blast
  have nz: "cost ex_opportunity \<noteq> 0" by (simp add: ex_opportunity_def)
  from g nz have m: "margin ex_opportunity
      = Some ((gross ex_opportunity - cost ex_opportunity) / cost ex_opportunity)"
    by (simp add: np_divide_def)
  from f z have n: "margin ex_free_opportunity = None" by blast
  show ?thesis by (intro conjI ex_free_attempt n z a m)
qed

section \<open>Attempts do not share orders\<close>

lemma cells_Cons: "cells h (a # as) = h ! a # cells h as"
  by (simp add: cells_def)

lemma cells_Nil: "cells h [] = []"
  by (simp add: cells_def)

lemma cells_length: "length (cells h as) = length as"
  by (simp add: cells_def)

lemma cells_update_other: "a \<notin> set as \<Longrightarrow> cells (h[a := x]) as = cells h as"
  by (induction as) (auto simp: cells_def)

lemma cells_same: "\<forall>b\<in>set as. h' ! b = h ! b \<Longrightarrow> cells h' as = cells h as"
  by (simp add: cells_def)

lemma cells_append_heap: "\<forall>a\<in>set as. a < length h \<Longrightarrow> cells (h @ ext) as = cells h as"
  by (simp add: cells_def nth_append)

lemma buy_loop_fill_done:
  assumes "min_volume (h ! a) \<le> bv \<and> 0 < volume (h ! a)" "bv - fill_amount bv (h ! a) = 0"
  shows "buy_loop bv pot (a # rest) h =
       (pot @ [make_record (h ! a) (fill_amount bv (h ! a))], bv - fill_amount bv (h ! a),
        h[a := consume (h ! a) (fill_amount bv (h ! a))])"
  by (subst buy_loop.simps(2), subst if_P[OF assms(1)], subst if_P[OF assms(2)]) (rule refl)

lemma buy_loop_fill_more:
  assumes "min_volume (h ! a) \<le> bv \<and> 0 < volume (h ! a)" "bv - fill_amount bv (h ! a) \<noteq> 0"
  shows "buy_loop bv pot (a # rest) h =
       buy_loop (bv - fill_amount bv (h ! a))
         (pot @ [make_record (h ! a) (fill_amount bv (h ! a))]) rest
         (h[a := consume (h ! a) (fill_amount bv (h ! a))])"
  by (subst buy_loop.simps(2), subst if_P[OF assms(1)], subst if_not_P[OF assms(2)]) (rule refl)

lemma buy_loop_skip_done:
  assumes "\<not> (min_volume (h ! a) \<le> bv \<and> 0 < volume (h ! a))" "bv = 0"
  shows "buy_loop bv pot (a # rest) h = (pot, bv, h)"
  by (subst buy_loop.simps(2), subst if_not_P[OF assms(1)], subst if_P[OF assms(2)]) (rule refl)

lemma buy_loop_skip_more:
  assumes "\<not> (min_volume (h ! a) \<le> bv \<and> 0 < volume (h ! a))" "bv \<noteq> 0"
  shows "buy_loop bv pot (a # rest) h = buy_loop bv pot rest h"
  by (subst buy_loop.simps(2), subst if_not_P[OF assms(1)], subst if_not_P[OF assms(2)]) (rule refl)

lemma sell_loop_fill_done:
  assumes "sell_match cr rid lid bv (h ! a)" "bv - fill_amount bv (h ! a) = 0"
  shows "sell_loop cr rid lid bv pot (a # rest) h =
       (pot @ [make_record (h ! a) (fill_amount bv (h ! a))], bv - fill_amount bv (h ! a),
        h[a := consume (h ! a) (fill_amount bv (h ! a))])"
  by (subst sell_loop.simps(2), subst if_P[OF assms(1)], subst if_P[OF assms(2)]) (rule refl)

lemma sell_loop_fill_more:
  assumes "sell_match cr rid lid bv (h ! a)" "bv - fill_amount bv (h ! a) \<noteq> 0"
  shows "sell_loop cr rid lid bv pot (a # rest) h =
       sell_loop cr rid lid (bv - fill_amount bv (h ! a))
         (pot @ [make_record (h ! a) (fill_amount bv (h ! a))]) rest
         (h[a := consume (h ! a) (fill_amount bv (h ! a))])"
  by (subst sell_loop.simps(2), subst if_P[OF assms(1)], subst if_not_P[OF assms(2)]) (rule refl)

lemma sell_loop_skip_done:
  assumes "\<not> sell_match cr rid lid bv (h ! a)" "bv = 0"
  shows "sell_loop cr rid lid bv pot (a # rest) h = (pot, bv, h)"
  by (subst sell_loop.simps(2), subst if_not_P[OF assms(1)], subst if_P[OF assms(2)]) (rule refl)

lemma sell_loop_skip_more:
  assumes "\<not> sell_match cr rid lid bv (h ! a)" "bv \<noteq> 0"
  shows "sell_loop cr rid lid bv pot (a # rest) h = sell_loop cr rid lid bv pot rest h"
  by (subst sell_loop.simps(2), subst if_not_P[OF assms(1)], subst if_not_P[OF assms(2)]) (rule refl)

lemma buy_loop_frame:
  "buy_loop bv pot as h = (r, left, h') \<Longrightarrow>
     length h' = length h \<and> (\<forall>b. b \<notin> set as \<longrightarrow> h' ! b = h ! b)"
proof (induction bv pot as h arbitrary: r left h' rule: buy_loop.induct)
  case (1 bv pot h)
  then show ?case by simp
next
  case (2 bv pot a rest h)
  note run = 2(3)
  show ?case
  proof (cases "min_volume (h ! a) \<le> bv \<and> 0 < volume (h ! a)")
    case True
    show ?thesis
    proof (cases "bv - fill_amount bv (h ! a) = 0")
      case z: True
      from run have "h' = h[a := consume (h ! a) (fill_amount bv (h ! a))]"
        unfolding buy_loop_fill_done[OF True z] by simp
      then show ?thesis by simp
    next
      case nz: False
      from run have "buy_loop (bv - fill_amount bv (h ! a))
         (pot @ [make_record (h ! a) (fill_amount bv (h ! a))]) rest
         (h[a := consume (h ! a) (fill_amount bv (h ! a))]) = (r, left, h')"
        unfolding buy_loop_fill_more[OF True nz] .
      from 2(1)[OF True nz this] show ?thesis by simp
    qed
  next
    case False
    show ?thesis
    proof (cases "bv = 0")
      case True
      from run have "h' = h" unfolding buy_loop_skip_done[OF False True] by simp
      then show ?thesis by simp
    next
      case nz: False
      from run have "buy_loop bv pot rest h = (r, left, h')"
        unfolding buy_loop_skip_more[OF False nz] .
      from 2(2)[OF False nz this] show ?thesis by simp
    qed
  qed
qed

lemma sell_loop_frame:
  "sell_loop cr rid lid bv pot as h = (r, left, h') \<Longrightarrow>
     length h' = length h \<and> (\<forall>b. b \<notin> set as \<longrightarrow> h' ! b = h ! b)"
proof (induction cr rid lid bv pot as h arbitrary: r left h' rule: sell_loop.induct)
  case (1 cr rid lid bv pot h)
  then show ?case by simp
next
  case (2 cr rid lid bv pot a rest h)
  note run = 2(3)
  show ?case
  proof (cases "sell_match cr rid lid bv (h ! a)")
    case True
    show ?thesis
    proof (cases "bv - fill_amount bv (h ! a) = 0")
      case z: True
      from run have "h' = h[a := consume (h ! a) (fill_amount bv (h ! a))]"
        unfolding sell_loop_fill_done[OF True z] by simp
      then show ?thesis by simp
    next
      case nz: False
      from run have "sell_loop cr rid lid (bv - fill_amount bv (h ! a))
         (pot @ [make_record (h ! a) (fill_amount bv (h ! a))]) rest
         (h[a := consume (h ! a) (fill_amount bv (h ! a))]) = (r, left, h')"
        unfolding sell_loop_fill_more[OF True nz] .
      from 2(1)[OF True nz this] show ?thesis by simp
    qed
  next
    case False
    show ?thesis
    proof (cases "bv = 0")
      case True
      from run have "h' = h" unfolding sell_loop_skip_done[OF False True] by simp
      then show ?thesis by simp
    next
      case nz: False
      from run have "sell_loop cr rid lid bv pot rest h = (r, left, h')"
        unfolding sell_loop_skip_more[OF False nz] .
      from 2(2)[OF False nz this] show ?thesis by simp
    qed
  qed
qed

lemma buy_loop_alike:
  assumes "cells h1 as1 = cells h2 as2"
    and "distinct as1" "distinct as2"
    and "\<forall>a\<in>set as1. a < length h1" "\<forall>a\<in>set as2. a < length h2"
    and "buy_loop bv pot as1 h1 = (r1, l1, g1)"
    and "buy_loop bv pot as2 h2 = (r2, l2, g2)"
  shows "r1 = r2 \<and> l1 = l2 \<and> cells g1 as1 = cells g2 as2"
  using assms
proof (induction bv pot as1 h1 arbitrary: as2 h2 r1 l1 g1 r2 l2 g2 rule: buy_loop.induct)
  case (1 bv pot h)
  then have "as2 = []" using cells_length[of h2 as2] by (simp add: cells_Nil)
  with 1 show ?case by (simp add: cells_Nil)
next
  case (2 bv pot a rest h)
  from 2(3) obtain a2 rest2 where as2: "as2 = a2 # rest2"
    using cells_length[of h2 as2] cells_length[of h "a # rest"] by (cases as2) auto
  from 2(3) as2 have hd: "h2 ! a2 = h ! a" and tl: "cells h rest = cells h2 rest2"
    by (simp_all add: cells_Cons)
  from 2(4,5) as2 have nin: "a \<notin> set rest" "a2 \<notin> set rest2" and d: "distinct rest" "distinct rest2"
    by simp_all
  from 2(6,7) as2 have b: "a < length h" "a2 < length h2"
    and bs: "\<forall>x\<in>set rest. x < length h" "\<forall>x\<in>set rest2. x < length h2" by simp_all
  define amt where "amt = fill_amount bv (h ! a)"
  define k1 where "k1 = h[a := consume (h ! a) amt]"
  define k2 where "k2 = h2[a2 := consume (h ! a) amt]"
  define pot' where "pot' = pot @ [make_record (h ! a) amt]"
  have tl': "cells k1 rest = cells k2 rest2"
    using tl nin by (simp add: cells_update_other k1_def k2_def)
  have hd': "k1 ! a = k2 ! a2" using b by (simp add: k1_def k2_def)
  have bs': "\<forall>x\<in>set rest. x < length k1" "\<forall>x\<in>set rest2. x < length k2"
    using bs by (simp_all add: k1_def k2_def)
  note run1 = 2(8)
  note run2 = 2(9)[unfolded as2]
  show ?case
  proof (cases "min_volume (h ! a) \<le> bv \<and> 0 < volume (h ! a)")
    case True
    then have True2: "min_volume (h2 ! a2) \<le> bv \<and> 0 < volume (h2 ! a2)" by (simp add: hd)
    show ?thesis
    proof (cases "bv - fill_amount bv (h ! a) = 0")
      case z: True
      then have z2: "bv - fill_amount bv (h2 ! a2) = 0" by (simp add: hd)
      from run1 have "(r1, l1, g1) = (pot', bv - amt, k1)"
        unfolding buy_loop_fill_done[OF True z] by (simp add: amt_def k1_def pot'_def)
      moreover from run2 have "(r2, l2, g2) = (pot', bv - amt, k2)"
        unfolding buy_loop_fill_done[OF True2 z2] by (simp add: amt_def k2_def pot'_def hd)
      ultimately show ?thesis using hd' tl' as2 by (simp add: cells_Cons)
    next
      case nz: False
      then have nz2: "bv - fill_amount bv (h2 ! a2) \<noteq> 0" by (simp add: hd)
      from run1 have r1: "buy_loop (bv - amt) pot' rest k1 = (r1, l1, g1)"
        unfolding buy_loop_fill_more[OF True nz] by (simp add: amt_def k1_def pot'_def)
      from run2 have r2: "buy_loop (bv - amt) pot' rest2 k2 = (r2, l2, g2)"
        unfolding buy_loop_fill_more[OF True2 nz2] by (simp add: amt_def k2_def pot'_def hd)
      from 2(1)[OF True nz tl'[unfolded k1_def k2_def amt_def] d
          bs'[unfolded k1_def k2_def amt_def] r1[unfolded k1_def amt_def pot'_def]
          r2[unfolded k2_def amt_def pot'_def]]
      have ih: "r1 = r2 \<and> l1 = l2 \<and> cells g1 rest = cells g2 rest2" .
      have "g1 ! a = k1 ! a" using buy_loop_frame[OF r1] nin by simp
      moreover have "g2 ! a2 = k2 ! a2" using buy_loop_frame[OF r2] nin by simp
      ultimately show ?thesis using ih hd' as2 by (simp add: cells_Cons)
    qed
  next
    case False
    then have False2: "\<not> (min_volume (h2 ! a2) \<le> bv \<and> 0 < volume (h2 ! a2))" by (simp add: hd)
    show ?thesis
    proof (cases "bv = 0")
      case True
      from run1 have "(r1, l1, g1) = (pot, bv, h)"
        unfolding buy_loop_skip_done[OF False True] by simp
      moreover from run2 have "(r2, l2, g2) = (pot, bv, h2)"
        unfolding buy_loop_skip_done[OF False2 True] by simp
      ultimately show ?thesis using 2(3) by simp
    next
      case nz: False
      from run1 have r1: "buy_loop bv pot rest h = (r1, l1, g1)"
        unfolding buy_loop_skip_more[OF False nz] .
      from run2 have r2: "buy_loop bv pot rest2 h2 = (r2, l2, g2)"
        unfolding buy_loop_skip_more[OF False2 nz] .
      from 2(2)[OF False nz tl d bs r1 r2]
      have ih: "r1 = r2 \<and> l1 = l2 \<and> cells g1 rest = cells g2 rest2" .
      have "g1 ! a = h ! a" using buy_loop_frame[OF r1] nin by simp
      moreover have "g2 ! a2 = h2 ! a2" using buy_loop_frame[OF r2] nin by simp
      ultimately show ?thesis using ih hd as2 by (simp add: cells_Cons)
    qed
  qed
qed

lemma sell_loop_alike:
  assumes "cells h1 as1 = cells h2 as2"
    and "distinct as1" "distinct as2"
    and "\<forall>a\<in>set as1. a < length h1" "\<forall>a\<in>set as2. a < length h2"
    and "sell_loop cr rid lid bv pot as1 h1 = (r1, l1, g1)"
    and "sell_loop cr rid lid bv pot as2 h2 = (r2, l2, g2)"
  shows "r1 = r2 \<and> l1 = l2 \<and> cells g1 as1 = cells g2 as2"
  using assms
proof (induction cr rid lid bv pot as1 h1 arbitrary: as2 h2 r1 l1 g1 r2 l2 g2 rule: sell_loop.induct)
  case (1 cr rid lid bv pot h)
  then have "as2 = []" using cells_length[of h2 as2] by (simp add: cells_Nil)
  with 1 show ?case by (simp add: cells_Nil)
next
  case (2 cr rid lid bv pot a rest h)
  from 2(3) obtain a2 rest2 where as2: "as2 = a2 # rest2"
    using cells_length[of h2 as2] cells_length[of h "a # rest"] by (cases as2) auto
  from 2(3) as2 have hd: "h2 ! a2 = h ! a" and tl: "cells h rest = cells h2 rest2"
    by (simp_all add: cells_Cons)
  from 2(4,5) as2 have nin: "a \<notin> set rest" "a2 \<notin> set rest2" and d: "distinct rest" "distinct rest2"
    by simp_all
  from 2(6,7) as2 have b: "a < length h" "a2 < length h2"
    and bs: "\<forall>x\<in>set rest. x < length h" "\<forall>x\<in>set rest2. x < length h2" by simp_all
  define amt where "amt = fill_amount bv (h ! a)"
  define k1 where "k1 = h[a := consume (h ! a) amt]"
  define k2 where "k2 = h2[a2 := consume (h ! a) amt]"
  define pot' where "pot' = pot @ [make_record (h ! a) amt]"
  have tl': "cells k1 rest = cells k2 rest2"
    using tl nin by (simp add: cells_update_other k1_def k2_def)
  have hd': "k1 ! a = k2 ! a2" using b by (simp add: k1_def k2_def)
  have bs': "\<forall>x\<in>set rest. x < length k1" "\<forall>x\<in>set rest2. x < length k2"
    using bs by (simp_all add: k1_def k2_def)
  note run1 = 2(8)
  note run2 = 2(9)[unfolded as2]
  show ?case
  proof (cases "sell_match cr rid lid bv (h ! a)")
    case True
    then have True2: "sell_match cr rid lid bv (h2 ! a2)" by (simp add: hd)
    show ?thesis
    proof (cases "bv - fill_amount bv (h ! a) = 0")
      case z: True
      then have z2: "bv - fill_amount bv (h2 ! a2) = 0" by (simp add: hd)
      from run1 have "(r1, l1, g1) = (pot', bv - amt, k1)"
        unfolding sell_loop_fill_done[OF True z] by (simp add: amt_def k1_def pot'_def)
      moreover from run2 have "(r2, l2, g2) = (pot', bv - amt, k2)"
        unfolding sell_loop_fill_done[OF True2 z2] by (simp add: amt_def k2_def pot'_def hd)
      ultimately show ?thesis using hd' tl' as2 by (simp add: cells_Cons)
    next
      case nz: False
      then have nz2: "bv - fill_amount bv (h2 ! a2) \<noteq> 0" by (simp add: hd)
      from run1 have r1: "sell_loop cr rid lid (bv - amt) pot' rest k1 = (r1, l1, g1)"
        unfolding sell_loop_fill_more[OF True nz] by (simp add: amt_def k1_def pot'_def)
      from run2 have r2: "sell_loop cr rid lid (bv - amt) pot' rest2 k2 = (r2, l2, g2)"
        unfolding sell_loop_fill_more[OF True2 nz2] by (simp add: amt_def k2_def pot'_def hd)
      from 2(1)[OF True nz tl'[unfolded k1_def k2_def amt_def] d
          bs'[unfolded k1_def k2_def amt_def] r1[unfolded k1_def amt_def pot'_def]
          r2[unfolded k2_def amt_def pot'_def]]
      have ih: "r1 = r2 \<and> l1 = l2 \<and> cells g1 rest = cells g2 rest2" .
      have "g1 ! a = k1 ! a" using sell_loop_frame[OF r1] nin by simp
      moreover have "g2 ! a2 = k2 ! a2" using sell_loop_frame[OF r2] nin by simp
      ultimately show ?thesis using ih hd' as2 by (simp add: cells_Cons)
    qed
  next
    case False
    then have False2: "\<not> sell_match cr rid lid bv (h2 ! a2)" by (simp add: hd)
    show ?thesis
    proof (cases "bv = 0")
      case True
      from run1 have "(r1, l1, g1) = (pot, bv, h)"
        unfolding sell_loop_skip_done[OF False True] by simp
      moreover from run2 have "(r2, l2, g2) = (pot, bv, h2)"
        unfolding sell_loop_skip_done[OF False2 True] by simp
      ultimately show ?thesis using 2(3) by simp
    next
      case nz: False
      from run1 have r1: "sell_loop cr rid lid bv pot rest h = (r1, l1, g1)"
        unfolding sell_loop_skip_more[OF False nz] .
      from run2 have r2: "sell_loop cr rid lid bv pot rest2 h2 = (r2, l2, g2)"
        unfolding sell_loop_skip_more[OF False2 nz] .
      from 2(2)[OF False nz tl d bs r1 r2]
      have ih: "r1 = r2 \<and> l1 = l2 \<and> cells g1 rest = cells g2 rest2" .
      have "g1 ! a = h ! a" using sell_loop_frame[OF r1] nin by simp
      moreover have "g2 ! a2 = h2 ! a2" using sell_loop_frame[OF r2] nin by simp
      ultimately show ?thesis using ih hd as2 by (simp add: cells_Cons)
    qed
  qed
qed

lemma settled_refl: "settled st st"
  by (simp add: settled_def)

lemma settled_touched: "settled st st' \<Longrightarrow> touched st' = touched st"
  by (simp add: settled_def touched_def)

lemma settled_trans:
  assumes "settled s t" "settled t u"
  shows "settled s u"
  unfolding settled_def
proof (intro conjI allI impI)
  show "sell_order_list u = sell_order_list s" using assms by (simp add: settled_def)
  show "buy_order_map u = buy_order_map s" using assms by (simp add: settled_def)
  show "length (heap u) = length (heap s)" using assms by (simp add: settled_def)
  fix b assume b: "b \<notin> touched s"
  then have "b \<notin> touched t" using settled_touched[OF assms(1)] by simp
  with assms(2) have "heap u ! b = heap t ! b" by (simp add: settled_def)
  also from assms(1) b have "heap t ! b = heap s ! b" by (simp add: settled_def)
  finally show "heap u ! b = heap s ! b" .
qed

lemma settled_owned:
  assumes "settled st st'" "owned st"
  shows "owned st'"
proof -
  from assms(1) have e: "sell_order_list st' = sell_order_list st"
    "buy_order_map st' = buy_order_map st" "length (heap st') = length (heap st)"
    by (simp_all add: settled_def)
  show ?thesis
    using assms(2) unfolding owned_def touched_def e .
qed

lemma settled_fields:
  "sell_order_list st' = sell_order_list st \<Longrightarrow> buy_order_map st' = buy_order_map st \<Longrightarrow>
   heap st' = heap st \<Longrightarrow> settled st st'"
  by (simp add: settled_def)

lemma attempt_buy_frame:
  "attempt_buy_type_list v as h = (r, h') \<Longrightarrow>
     length h' = length h \<and> (\<forall>b. b \<notin> set as \<longrightarrow> h' ! b = h ! b)"
  using buy_loop_frame[of v "[]" as h]
  by (auto simp: attempt_buy_type_list_def split: prod.splits)

lemma attempt_sell_frame:
  "attempt_sell_type_list cr rid lid v as h = (r, h') \<Longrightarrow>
     length h' = length h \<and> (\<forall>b. b \<notin> set as \<longrightarrow> h' ! b = h ! b)"
  using sell_loop_frame[of cr rid lid v "[]" as h]
  by (auto simp: attempt_sell_type_list_def split: prod.splits)

lemma attempt_buy_alike:
  assumes "cells h1 as1 = cells h2 as2" "distinct as1" "distinct as2"
    "\<forall>a\<in>set as1. a < length h1" "\<forall>a\<in>set as2. a < length h2"
    "attempt_buy_type_list v as1 h1 = (r1, g1)" "attempt_buy_type_list v as2 h2 = (r2, g2)"
  shows "r1 = r2 \<and> cells g1 as1 = cells g2 as2"
proof -
  obtain x1 l1 y1 where a: "buy_loop v [] as1 h1 = (x1, l1, y1)"
    by (cases "buy_loop v [] as1 h1") auto
  obtain x2 l2 y2 where b: "buy_loop v [] as2 h2 = (x2, l2, y2)"
    by (cases "buy_loop v [] as2 h2") auto
  from buy_loop_alike[OF assms(1-5) a b] assms(6,7) a b show ?thesis
    by (simp add: attempt_buy_type_list_def)
qed

lemma attempt_sell_alike:
  assumes "cells h1 as1 = cells h2 as2" "distinct as1" "distinct as2"
    "\<forall>a\<in>set as1. a < length h1" "\<forall>a\<in>set as2. a < length h2"
    "attempt_sell_type_list cr rid lid v as1 h1 = (r1, g1)"
    "attempt_sell_type_list cr rid lid v as2 h2 = (r2, g2)"
  shows "r1 = r2 \<and> cells g1 as1 = cells g2 as2"
proof -
  obtain x1 l1 y1 where a: "sell_loop cr rid lid v [] as1 h1 = (x1, l1, y1)"
    by (cases "sell_loop cr rid lid v [] as1 h1") auto
  obtain x2 l2 y2 where b: "sell_loop cr rid lid v [] as2 h2 = (x2, l2, y2)"
    by (cases "sell_loop cr rid lid v [] as2 h2") auto
  from sell_loop_alike[OF assms(1-5) a b] assms(6,7) a b show ?thesis
    by (simp add: attempt_sell_type_list_def)
qed

lemma sell_material_settled:
  assumes "sell_material E m st = Inr (fl, sold, st')"
  shows "settled st st'"
proof -
  from assms obtain sd where sd: "lookup (spread_data st) m = Inr sd"
    by (auto simp: sell_material_def split: sum.splits)
  from assms sd obtain mat where mat: "lookup (materials E) m = Inr mat"
    by (auto simp: sell_material_def split: sum.splits)
  show ?thesis
  proof (cases "limit_sell E sd")
    case True
    with assms sd mat show ?thesis
      by (auto simp: sell_material_def settled_def touched_def split: sum.splits if_splits option.splits)
  next
    case False
    with assms sd mat obtain l where l: "lookup (buy_order_map st) m = Inr l"
      by (auto simp: sell_material_def split: sum.splits)
    then have ml: "map_of (buy_order_map st) m = Some l"
      by (simp add: lookup_def split: option.splits)
    from assms sd mat False l obtain h' where
      run: "attempt_sell_type_list (check_range E) (region_id E) (station_id E)
              (py_int (of_int (quantity mat) * efficiency E)) l (heap st) = (sold, h')"
      and st': "st' = st\<lparr>heap := h'\<rparr>"
      by (auto simp: sell_material_def split: prod.splits)
    from attempt_sell_frame[OF run] ml st' show ?thesis
      by (auto simp: settled_def touched_def)
  qed
qed

lemma owned_sell:
  "owned st \<Longrightarrow> distinct (sell_order_list st) \<and> (\<forall>a\<in>set (sell_order_list st). a < length (heap st))"
  unfolding owned_def touched_def by blast

lemma owned_buy:
  "owned st \<Longrightarrow> map_of (buy_order_map st) k = Some l \<Longrightarrow>
     distinct l \<and> (\<forall>a\<in>set l. a < length (heap st)) \<and> set l \<inter> set (sell_order_list st) = {}"
  unfolding owned_def touched_def by blast

lemma owned_two:
  "owned st \<Longrightarrow> map_of (buy_order_map st) k = Some l \<Longrightarrow>
     map_of (buy_order_map st) k' = Some l' \<Longrightarrow> k \<noteq> k' \<Longrightarrow> set l \<inter> set l' = {}"
  unfolding owned_def by blast

lemma alike_sell: "alike s t \<Longrightarrow> cells (heap s) (sell_order_list s) = cells (heap t) (sell_order_list t)"
  unfolding alike_def by blast

lemma alike_keys: "alike s t \<Longrightarrow> map fst (buy_order_map s) = map fst (buy_order_map t)"
  unfolding alike_def by blast

lemma alike_buy:
  "alike s t \<Longrightarrow> map_of (buy_order_map s) k = Some l \<Longrightarrow> map_of (buy_order_map t) k = Some l' \<Longrightarrow>
     cells (heap s) l = cells (heap t) l'"
  unfolding alike_def by blast

lemma alike_rest:
  "alike s t \<Longrightarrow> all_sell_orders s = all_sell_orders t \<and> limit_order_max s = limit_order_max t \<and>
     spread_data s = spread_data t \<and> all_buy_orders s = all_buy_orders t \<and>
     gross_acc s = gross_acc t \<and> cost_acc s = cost_acc t"
  unfolding alike_def by blast

lemma alikeI:
  assumes "cells (heap s) (sell_order_list s) = cells (heap t) (sell_order_list t)"
    and "map fst (buy_order_map s) = map fst (buy_order_map t)"
    and "\<And>k l l'. map_of (buy_order_map s) k = Some l \<Longrightarrow> map_of (buy_order_map t) k = Some l' \<Longrightarrow>
        cells (heap s) l = cells (heap t) l'"
    and "all_sell_orders s = all_sell_orders t" "limit_order_max s = limit_order_max t"
     "spread_data s = spread_data t" "all_buy_orders s = all_buy_orders t"
     "gross_acc s = gross_acc t" "cost_acc s = cost_acc t"
  shows "alike s t"
  unfolding alike_def using assms by blast

lemma map_of_keys_None:
  "map fst m = map fst m' \<Longrightarrow> (map_of m k = None) = (map_of m' k = None)"
  by (metis map_of_eq_None_iff set_map)

lemma alike_lookup:
  assumes "alike s t"
  shows "(\<exists>l l'. lookup (buy_order_map s) k = Inr l \<and> lookup (buy_order_map t) k = Inr l' \<and>
            map_of (buy_order_map s) k = Some l \<and> map_of (buy_order_map t) k = Some l') \<or>
         (lookup (buy_order_map s) k = Inl KeyError \<and> lookup (buy_order_map t) k = Inl KeyError)"
  using map_of_keys_None[OF alike_keys[OF assms], of k]
  by (cases "map_of (buy_order_map s) k"; cases "map_of (buy_order_map t) k") (auto simp: lookup_def)

lemma cells_frame:
  "\<forall>b. b \<notin> A \<longrightarrow> h' ! b = h ! b \<Longrightarrow> set as \<inter> A = {} \<Longrightarrow> cells h' as = cells h as"
  by (rule cells_same) auto

lemma market_sale_alike:
  assumes al: "alike s t" and os: "owned s" and ot: "owned t"
    and ms: "map_of (buy_order_map s) m = Some l" and mt: "map_of (buy_order_map t) m = Some l'"
    and rs: "attempt_sell_type_list cr rid lid v l (heap s) = (sold, g)"
    and rt: "attempt_sell_type_list cr rid lid v l' (heap t) = (sold', g')"
  shows "sold = sold' \<and> alike (s\<lparr>heap := g\<rparr>) (t\<lparr>heap := g'\<rparr>)"
proof -
  note bs = owned_buy[OF os ms] and bt = owned_buy[OF ot mt]
  from attempt_sell_alike[OF alike_buy[OF al ms mt] _ _ _ _ rs rt] bs bt
  have res: "sold = sold'" "cells g l = cells g' l'" by auto
  note fs = attempt_sell_frame[OF rs] and ft = attempt_sell_frame[OF rt]
  have "alike (s\<lparr>heap := g\<rparr>) (t\<lparr>heap := g'\<rparr>)"
  proof (rule alikeI)
    have "cells g (sell_order_list s) = cells (heap s) (sell_order_list s)"
      using fs bs by (intro cells_frame[where A = "set l"]) auto
    moreover have "cells g' (sell_order_list t) = cells (heap t) (sell_order_list t)"
      using ft bt by (intro cells_frame[where A = "set l'"]) auto
    ultimately show "cells (heap (s\<lparr>heap := g\<rparr>)) (sell_order_list (s\<lparr>heap := g\<rparr>)) =
        cells (heap (t\<lparr>heap := g'\<rparr>)) (sell_order_list (t\<lparr>heap := g'\<rparr>))"
      using alike_sell[OF al] by simp
  next
    show "map fst (buy_order_map (s\<lparr>heap := g\<rparr>)) = map fst (buy_order_map (t\<lparr>heap := g'\<rparr>))"
      using alike_keys[OF al] by simp
  next
    fix k x x'
    assume "map_of (buy_order_map (s\<lparr>heap := g\<rparr>)) k = Some x"
      "map_of (buy_order_map (t\<lparr>heap := g'\<rparr>)) k = Some x'"
    then have kx: "map_of (buy_order_map s) k = Some x" "map_of (buy_order_map t) k = Some x'"
      by simp_all
    show "cells (heap (s\<lparr>heap := g\<rparr>)) x = cells (heap (t\<lparr>heap := g'\<rparr>)) x'"
    proof (cases "k = m")
      case True
      with kx ms mt res show ?thesis by simp
    next
      case False
      have "cells g x = cells (heap s) x"
        using fs owned_two[OF os kx(1) ms False] by (intro cells_frame[where A = "set l"]) auto
      moreover have "cells g' x' = cells (heap t) x'"
        using ft owned_two[OF ot kx(2) mt False] by (intro cells_frame[where A = "set l'"]) auto
      ultimately show ?thesis using alike_buy[OF al kx] by simp
    qed
  qed (use alike_rest[OF al] in simp_all)
  with res show ?thesis by simp
qed

lemma alike_limit_update:
  "alike s t \<Longrightarrow> alike (s\<lparr>limit_order_max := x\<rparr>) (t\<lparr>limit_order_max := x\<rparr>)"
  unfolding alike_def by simp

lemma sell_material_alike:
  assumes al: "alike s t" and os: "owned s" and ot: "owned t"
  shows "rel_sum (=) (\<lambda>x y. fst x = fst y \<and> fst (snd x) = fst (snd y) \<and> alike (snd (snd x)) (snd (snd y)))
           (sell_material E m s) (sell_material E m t)"
proof -
  note r = alike_rest[OF al]
  show ?thesis
  proof (cases "lookup (spread_data s) m")
    case (Inl e)
    then show ?thesis using r by (simp add: sell_material_def)
  next
    case sd: (Inr sr_data)
    show ?thesis
    proof (cases "lookup (materials E) m")
      case (Inl e)
      then show ?thesis using r sd by (simp add: sell_material_def)
    next
      case mat: (Inr mat)
      show ?thesis
      proof (cases "limit_sell E sr_data")
        case True
        show ?thesis
        proof (cases "lookup (limit_order_max s) m")
          case (Inl e)
          then show ?thesis using r sd mat True by (simp add: sell_material_def)
        next
          case (Inr budget)
          then show ?thesis using r sd mat True al alike_limit_update[OF al]
            by (simp add: sell_material_def split: option.splits)
        qed
      next
        case False
        from alike_lookup[OF al, of m] show ?thesis
        proof
          assume "lookup (buy_order_map s) m = Inl KeyError \<and> lookup (buy_order_map t) m = Inl KeyError"
          then show ?thesis using r sd mat False by (simp add: sell_material_def)
        next
          assume "\<exists>l l'. lookup (buy_order_map s) m = Inr l \<and> lookup (buy_order_map t) m = Inr l' \<and>
            map_of (buy_order_map s) m = Some l \<and> map_of (buy_order_map t) m = Some l'"
          then obtain l l' where lk: "lookup (buy_order_map s) m = Inr l"
            "lookup (buy_order_map t) m = Inr l'"
            and mp: "map_of (buy_order_map s) m = Some l" "map_of (buy_order_map t) m = Some l'"
            by blast
          let ?v = "py_int (of_int (quantity mat) * efficiency E)"
          obtain sold g where rs: "attempt_sell_type_list (check_range E) (region_id E) (station_id E)
              ?v l (heap s) = (sold, g)"
            by (cases "attempt_sell_type_list (check_range E) (region_id E) (station_id E) ?v l (heap s)")
          obtain sold' g' where rt: "attempt_sell_type_list (check_range E) (region_id E) (station_id E)
              ?v l' (heap t) = (sold', g')"
            by (cases "attempt_sell_type_list (check_range E) (region_id E) (station_id E) ?v l' (heap t)")
          from market_sale_alike[OF al os ot mp rs rt]
          show ?thesis using r sd mat False lk rs rt by (simp add: sell_material_def)
        qed
      qed
    qed
  qed
qed

lemma sell_materials_settled:
  "sell_materials E ks so cg cc st = Inr (so', cg', cc', st') \<Longrightarrow> settled st st'"
proof (induction ks arbitrary: so cg cc st)
  case Nil
  then show ?case by (simp add: settled_refl)
next
  case (Cons m ks)
  from Cons.prems obtain fl sold st1 where sm: "sell_material E m st = Inr (fl, sold, st1)"
    by (auto split: sum.splits)
  note s1 = sell_material_settled[OF sm]
  show ?case
  proof (cases "length sold = 0")
    case True
    with Cons.prems sm have "st' = st1" by simp
    with s1 show ?thesis by simp
  next
    case False
    with Cons.prems sm have "sell_materials E ks (AList.update m sold so)
        (cg + gross_ratio E fl * order_value sold) (cc + station_tax E * order_value sold) st1
        = Inr (so', cg', cc', st')" by simp
    from settled_trans[OF s1 Cons.IH[OF this]] show ?thesis .
  qed
qed

lemma sell_materials_alike:
  assumes "alike s t" "owned s" "owned t"
  shows "rel_sum (=) (\<lambda>x y. fst x = fst y \<and> fst (snd x) = fst (snd y) \<and>
            fst (snd (snd x)) = fst (snd (snd y)) \<and> alike (snd (snd (snd x))) (snd (snd (snd y))))
           (sell_materials E ks so cg cc s) (sell_materials E ks so cg cc t)"
  using assms
proof (induction ks arbitrary: so cg cc s t)
  case Nil
  then show ?case by simp
next
  case (Cons m ks)
  note sa = sell_material_alike[OF Cons.prems, of E m]
  show ?case
  proof (cases "sell_material E m s")
    case (Inl e)
    with sa have "sell_material E m t = Inl e" by (cases "sell_material E m t") auto
    with Inl show ?thesis by simp
  next
    case (Inr x)
    with sa obtain y where y: "sell_material E m t = Inr y" by (cases "sell_material E m t") auto
    obtain fl sold s1 where x: "x = (fl, sold, s1)" by (cases x) auto
    obtain fl' sold' t1 where y': "y = (fl', sold', t1)" by (cases y) auto
    from sa Inr y x y' have eq: "fl' = fl" "sold' = sold" and al1: "alike s1 t1" by simp_all
    have o1: "owned s1" using sell_material_settled[OF Inr[unfolded x]] Cons.prems(2)
      by (rule settled_owned)
    have o2: "owned t1" using sell_material_settled[OF y[unfolded y']] Cons.prems(3)
      by (rule settled_owned)
    show ?thesis
    proof (cases "length sold = 0")
      case True
      then show ?thesis using Inr y x y' eq al1 by simp
    next
      case False
      then show ?thesis using Inr y x y' eq Cons.IH[OF al1 o1 o2] by simp
    qed
  qed
qed

lemma buy_step_alike:
  assumes al: "alike s t" and os: "owned s" and ot: "owned t"
    and rs: "attempt_buy_type_list v (sell_order_list s) (heap s) = (bought, g)"
    and rt: "attempt_buy_type_list v (sell_order_list t) (heap t) = (bought', g')"
  shows "bought = bought' \<and> alike (s\<lparr>heap := g\<rparr>) (t\<lparr>heap := g'\<rparr>)"
proof -
  note bs = owned_sell[OF os] and bt = owned_sell[OF ot]
  from attempt_buy_alike[OF alike_sell[OF al] _ _ _ _ rs rt] bs bt
  have res: "bought = bought'"
    "cells g (sell_order_list s) = cells g' (sell_order_list t)" by auto
  note fs = attempt_buy_frame[OF rs] and ft = attempt_buy_frame[OF rt]
  have "alike (s\<lparr>heap := g\<rparr>) (t\<lparr>heap := g'\<rparr>)"
  proof (rule alikeI)
    show "cells (heap (s\<lparr>heap := g\<rparr>)) (sell_order_list (s\<lparr>heap := g\<rparr>)) =
        cells (heap (t\<lparr>heap := g'\<rparr>)) (sell_order_list (t\<lparr>heap := g'\<rparr>))"
      using res by simp
  next
    show "map fst (buy_order_map (s\<lparr>heap := g\<rparr>)) = map fst (buy_order_map (t\<lparr>heap := g'\<rparr>))"
      using alike_keys[OF al] by simp
  next
    fix k x x'
    assume "map_of (buy_order_map (s\<lparr>heap := g\<rparr>)) k = Some x"
      "map_of (buy_order_map (t\<lparr>heap := g'\<rparr>)) k = Some x'"
    then have kx: "map_of (buy_order_map s) k = Some x" "map_of (buy_order_map t) k = Some x'"
      by simp_all
    have "cells g x = cells (heap s) x"
      using fs owned_buy[OF os kx(1)]
      by (intro cells_frame[where A = "set (sell_order_list s)"]) auto
    moreover have "cells g' x' = cells (heap t) x'"
      using ft owned_buy[OF ot kx(2)]
      by (intro cells_frame[where A = "set (sell_order_list t)"]) auto
    ultimately show "cells (heap (s\<lparr>heap := g\<rparr>)) x = cells (heap (t\<lparr>heap := g'\<rparr>)) x'"
      using alike_buy[OF al kx] by simp
  qed (use alike_rest[OF al] in simp_all)
  with res show ?thesis by simp
qed

lemma buy_step_settled:
  assumes "attempt_buy_type_list v (sell_order_list s) (heap s) = (bought, g)"
  shows "settled s (s\<lparr>heap := g\<rparr>)"
  using attempt_buy_frame[OF assms] by (simp add: settled_def touched_def)

lemma one_round_settled:
  assumes "one_round E st = Inr out"
  shows "case out of Stop st' \<Rightarrow> settled st st' | Traded b so cg cc st' \<Rightarrow> settled st st'"
proof -
  obtain b g where buy: "attempt_buy_type_list (required_volume E) (sell_order_list st) (heap st) = (b, g)"
    by (cases "attempt_buy_type_list (required_volume E) (sell_order_list st) (heap st)")
  note s1 = buy_step_settled[OF buy]
  show ?thesis
  proof (cases "length b = 0")
    case True
    with assms buy s1 show ?thesis by (auto simp: one_round_def)
  next
    case False
    with assms buy obtain so cg cc st2 where sm: "sell_materials E (map fst (buy_order_map st)) [] 0
        (order_value b) (st\<lparr>heap := g\<rparr>) = Inr (so, cg, cc, st2)"
      by (auto simp: one_round_def split: sum.splits)
    from settled_trans[OF s1 sell_materials_settled[OF sm]] have "settled st st2" .
    with assms buy False sm show ?thesis by (auto simp: one_round_def split: if_splits)
  qed
qed

lemma one_round_alike:
  assumes al: "alike s t" and os: "owned s" and ot: "owned t"
  shows "rel_sum (=) alike_outcome (one_round E s) (one_round E t)"
proof -
  obtain b g where bs: "attempt_buy_type_list (required_volume E) (sell_order_list s) (heap s) = (b, g)"
    by (cases "attempt_buy_type_list (required_volume E) (sell_order_list s) (heap s)")
  obtain b' g' where bt: "attempt_buy_type_list (required_volume E) (sell_order_list t) (heap t) = (b', g')"
    by (cases "attempt_buy_type_list (required_volume E) (sell_order_list t) (heap t)")
  from buy_step_alike[OF al os ot bs bt] have eq: "b' = b"
    and al1: "alike (s\<lparr>heap := g\<rparr>) (t\<lparr>heap := g'\<rparr>)" by simp_all
  have o1: "owned (s\<lparr>heap := g\<rparr>)" using buy_step_settled[OF bs] os by (rule settled_owned)
  have o2: "owned (t\<lparr>heap := g'\<rparr>)" using buy_step_settled[OF bt] ot by (rule settled_owned)
  have keys: "map fst (buy_order_map t) = map fst (buy_order_map s)"
    using alike_keys[OF al] by simp
  show ?thesis
  proof (cases "length b = 0")
    case True
    then show ?thesis using bs bt eq al1 by (simp add: one_round_def)
  next
    case False
    note sm = sell_materials_alike[OF al1 o1 o2, of E "map fst (buy_order_map s)" "[]" 0 "order_value b"]
    show ?thesis
    proof (cases "sell_materials E (map fst (buy_order_map s)) [] 0 (order_value b) (s\<lparr>heap := g\<rparr>)")
      case (Inl e)
      with sm have "sell_materials E (map fst (buy_order_map s)) [] 0 (order_value b) (t\<lparr>heap := g'\<rparr>) = Inl e"
        by (cases "sell_materials E (map fst (buy_order_map s)) [] 0 (order_value b) (t\<lparr>heap := g'\<rparr>)") auto
      with Inl False bs bt eq keys show ?thesis by (simp add: one_round_def)
    next
      case (Inr x)
      with sm obtain y where y: "sell_materials E (map fst (buy_order_map s)) [] 0 (order_value b)
          (t\<lparr>heap := g'\<rparr>) = Inr y"
        by (cases "sell_materials E (map fst (buy_order_map s)) [] 0 (order_value b) (t\<lparr>heap := g'\<rparr>)") auto
      obtain so cg cc s2 where x: "x = (so, cg, cc, s2)" by (cases x) auto
      obtain so' cg' cc' t2 where y': "y = (so', cg', cc', t2)" by (cases y) auto
      from sm Inr y x y' have "so' = so" "cg' = cg" "cc' = cc" "alike s2 t2" by simp_all
      with Inr y x y' False bs bt eq keys show ?thesis by (simp add: one_round_def)
    qed
  qed
qed

lemma commit_settled: "commit b so cg cc st = Inr st' \<Longrightarrow> settled st st'"
  by (auto simp: commit_def settled_def split: sum.splits)

lemma commit_alike:
  assumes "alike s t"
  shows "rel_sum (=) alike (commit b so cg cc s) (commit b so cg cc t)"
proof -
  note r = alike_rest[OF assms]
  show ?thesis
  proof (cases "extend_all so (all_sell_orders s)")
    case (Inl e)
    then show ?thesis using r by (simp add: commit_def)
  next
    case (Inr every)
    have "alike (s\<lparr>all_buy_orders := all_buy_orders s @ b, all_sell_orders := every,
                  cost_acc := cost_acc s + cc, gross_acc := gross_acc s + cg\<rparr>)
                (t\<lparr>all_buy_orders := all_buy_orders s @ b, all_sell_orders := every,
                  cost_acc := cost_acc s + cc, gross_acc := gross_acc s + cg\<rparr>)"
      using assms unfolding alike_def by simp
    then show ?thesis using Inr r by (simp add: commit_def)
  qed
qed

lemma rounds_settled_aux:
  assumes "rounds E st = Some y"
  shows "\<forall>st'. y = Inr st' \<longrightarrow> settled st st'"
proof (rule rounds.raw_induct[where P = "\<lambda>E st y. \<forall>st'. y = Inr st' \<longrightarrow> settled st st'",
      OF _ assms])
  fix rnds E st y
  assume ih: "\<And>E st y. rnds E st = Some y \<Longrightarrow> \<forall>st'. y = Inr st' \<longrightarrow> settled st st'"
    and body: "(case one_round E st of
        Inl e \<Rightarrow> Some (Inl e)
      | Inr (Stop st') \<Rightarrow> Some (Inr st')
      | Inr (Traded bought sold current_gross current_cost st') \<Rightarrow>
          if current_gross > current_cost then
            (case commit bought sold current_gross current_cost st' of
               Inl e \<Rightarrow> Some (Inl e)
             | Inr st'' \<Rightarrow> rnds E st'')
          else Some (Inr st')) = Some y"
  show "\<forall>st'. y = Inr st' \<longrightarrow> settled st st'"
  proof (intro allI impI)
    fix st'
    assume y: "y = Inr st'"
    show "settled st st'"
    proof (cases "one_round E st")
      case (Inl e)
      with body y show ?thesis by simp
    next
      case (Inr out)
      note os = one_round_settled[OF Inr]
      show ?thesis
      proof (cases out)
        case (Stop st2)
        with Inr body y os show ?thesis by simp
      next
        case (Traded bought so cg cc st2)
        with os have s2: "settled st st2" by simp
        show ?thesis
        proof (cases "cc < cg")
          case False
          with Inr Traded body y s2 show ?thesis by simp
        next
          case True
          with Inr Traded body y obtain st3 where c: "commit bought so cg cc st2 = Inr st3"
            and r: "rnds E st3 = Some (Inr st')"
            by (auto split: sum.splits)
          from ih[OF r] have "settled st3 st'" by simp
          from settled_trans[OF settled_trans[OF s2 commit_settled[OF c]] this] show ?thesis .
        qed
      qed
    qed
  qed
qed

lemma rounds_settled: "rounds E st = Some (Inr st') \<Longrightarrow> settled st st'"
  using rounds_settled_aux by blast

lemma rounds_alike_aux:
  assumes "rounds E s = Some y"
  shows "\<forall>t. alike s t \<longrightarrow> owned s \<longrightarrow> owned t \<longrightarrow>
           (\<exists>y'. rounds E t = Some y' \<and> rel_sum (=) alike y y')"
proof (rule rounds.raw_induct[where P = "\<lambda>E s y. \<forall>t. alike s t \<longrightarrow> owned s \<longrightarrow> owned t \<longrightarrow>
           (\<exists>y'. rounds E t = Some y' \<and> rel_sum (=) alike y y')", OF _ assms])
  fix rnds E s y
  assume ih: "\<And>E s y. rnds E s = Some y \<Longrightarrow> \<forall>t. alike s t \<longrightarrow> owned s \<longrightarrow> owned t \<longrightarrow>
           (\<exists>y'. rounds E t = Some y' \<and> rel_sum (=) alike y y')"
    and body: "(case one_round E s of
        Inl e \<Rightarrow> Some (Inl e)
      | Inr (Stop st') \<Rightarrow> Some (Inr st')
      | Inr (Traded bought sold current_gross current_cost st') \<Rightarrow>
          if current_gross > current_cost then
            (case commit bought sold current_gross current_cost st' of
               Inl e \<Rightarrow> Some (Inl e)
             | Inr st'' \<Rightarrow> rnds E st'')
          else Some (Inr st')) = Some y"
  show "\<forall>t. alike s t \<longrightarrow> owned s \<longrightarrow> owned t \<longrightarrow>
           (\<exists>y'. rounds E t = Some y' \<and> rel_sum (=) alike y y')"
  proof (intro allI impI)
    fix t
    assume al: "alike s t" and os: "owned s" and ot: "owned t"
    note ora = one_round_alike[OF al os ot, of E]
    show "\<exists>y'. rounds E t = Some y' \<and> rel_sum (=) alike y y'"
    proof (cases "one_round E s")
      case (Inl e)
      with ora have "one_round E t = Inl e" by (cases "one_round E t") auto
      then have "rounds E t = Some (Inl e)" by (subst rounds.simps) simp
      moreover from Inl body have "y = Inl e" by simp
      ultimately show ?thesis by simp
    next
      case (Inr out)
      with ora obtain out' where o': "one_round E t = Inr out'" and ao: "alike_outcome out out'"
        by (cases "one_round E t") auto
      show ?thesis
      proof (cases out)
        case (Stop s2)
        with ao obtain t2 where t2: "out' = Stop t2" and a2: "alike s2 t2" by (cases out') auto
        from o' t2 have "rounds E t = Some (Inr t2)" by (subst rounds.simps) simp
        moreover from Inr Stop body have "y = Inr s2" by simp
        ultimately show ?thesis using a2 by simp
      next
        case (Traded b so cg cc s2)
        with ao obtain t2 where t2: "out' = Traded b so cg cc t2" and a2: "alike s2 t2"
          by (cases out') auto
        have o2: "owned s2" "owned t2"
          using one_round_settled[OF Inr] one_round_settled[OF o'] Traded t2 os ot
          by (auto intro: settled_owned)
        show ?thesis
        proof (cases "cc < cg")
          case False
          with o' t2 have "rounds E t = Some (Inr t2)" by (subst rounds.simps) simp
          moreover from Inr Traded body False have "y = Inr s2" by simp
          ultimately show ?thesis using a2 by simp
        next
          case True
          note ca = commit_alike[OF a2, of b so cg cc]
          show ?thesis
          proof (cases "commit b so cg cc s2")
            case (Inl e)
            with ca have "commit b so cg cc t2 = Inl e" by (cases "commit b so cg cc t2") auto
            with o' t2 True have "rounds E t = Some (Inl e)" by (subst rounds.simps) simp
            moreover from Inr Traded body True Inl have "y = Inl e" by simp
            ultimately show ?thesis by simp
          next
            case c: (Inr s3)
            with ca obtain t3 where c': "commit b so cg cc t2 = Inr t3" and a3: "alike s3 t3"
              by (cases "commit b so cg cc t2") auto
            have o3: "owned s3" "owned t3"
              using commit_settled[OF c] commit_settled[OF c'] o2 by (auto intro: settled_owned)
            from Inr Traded body True c have "rnds E s3 = Some y" by simp
            from ih[OF this] a3 o3 obtain y' where "rounds E t3 = Some y'" "rel_sum (=) alike y y'"
              by blast
            moreover from o' t2 True c' have "rounds E t = rounds E t3" by (subst rounds.simps) simp
            ultimately show ?thesis by simp
          qed
        qed
      qed
    qed
  qed
qed

lemma alike_sym: "alike s t \<Longrightarrow> alike t s"
  unfolding alike_def by (simp; metis)

lemma rounds_alike:
  assumes "alike s t" "owned s" "owned t"
  shows "rel_option (rel_sum (=) alike) (rounds E s) (rounds E t)"
proof (cases "rounds E s")
  case None
  have "rounds E t = None"
  proof (rule ccontr)
    assume "rounds E t \<noteq> None"
    then obtain y where "rounds E t = Some y" by auto
    from rounds_alike_aux[OF this] alike_sym[OF assms(1)] assms(2,3)
    obtain y' where "rounds E s = Some y'" by blast
    with None show False by simp
  qed
  with None show ?thesis by simp
next
  case (Some y)
  from rounds_alike_aux[OF Some] assms obtain y' where "rounds E t = Some y'" "rel_sum (=) alike y y'"
    by blast
  with Some show ?thesis by simp
qed

lemma cells_fresh: "cells (h @ rows) [length h..<length h + length rows] = rows"
  by (rule nth_equalityI) (simp_all add: cells_def nth_append)

lemma cells_fresh_ext: "cells ((h @ rows) @ ext) [length h..<length h + length rows] = rows"
proof -
  have "cells ((h @ rows) @ ext) [length h..<length h + length rows]
      = cells (h @ rows) [length h..<length h + length rows]"
    by (rule cells_append_heap) simp
  then show ?thesis by (simp only: cells_fresh)
qed

lemma allocate_eq:
  "allocate rows h = (as, h') \<Longrightarrow> as = [length h..<length h + length rows] \<and> h' = h @ rows"
  by (auto simp: allocate_def)

lemma best_bid_search_alike:
  "cells h1 as1 = cells h2 as2 \<Longrightarrow>
     best_bid_search cr rid sid as1 h1 = best_bid_search cr rid sid as2 h2"
proof (induction as1 arbitrary: as2)
  case Nil
  then have "as2 = []" using cells_length[of h2 as2] by (simp add: cells_Nil)
  then show ?case by simp
next
  case (Cons a rest)
  from Cons.prems obtain a2 rest2 where as2: "as2 = a2 # rest2"
    using cells_length[of h2 as2] cells_length[of h1 "a # rest"] by (cases as2) auto
  from Cons.prems as2 have hd: "h2 ! a2 = h1 ! a" and tl: "cells h1 rest = cells h2 rest2"
    by (simp_all add: cells_Cons)
  show ?case by (simp only: as2 best_bid_search.simps hd Cons.IH[OF tl])
qed

lemma spread_return_form:
  "spread_return cr snapshot tid sid rid h =
      (if sell_side snapshot tid sid = [] then Inr (neutral, h @ sell_side snapshot tid sid)
       else (case best_bid_search cr rid sid
                   [length (h @ sell_side snapshot tid sid)..<
                    length (h @ sell_side snapshot tid sid) + length (buy_side snapshot tid)]
                   ((h @ sell_side snapshot tid sid) @ buy_side snapshot tid) of
               None \<Rightarrow> Inr (neutral, (h @ sell_side snapshot tid sid) @ buy_side snapshot tid)
             | Some bid \<Rightarrow>
                 if bid = 0 then Inl ZeroDivisionError
                 else Inr (\<lparr>sr_value = (price (hd (sell_side snapshot tid sid)) - bid) / bid,
                            best_bid = Some bid,
                            best_ask = Some (price (hd (sell_side snapshot tid sid)))\<rparr>,
                           (h @ sell_side snapshot tid sid) @ buy_side snapshot tid)))"
proof (cases "sell_side snapshot tid sid = []")
  case True
  then show ?thesis
    by (simp add: spread_return_def extract_sell_orders_def allocate_def)
next
  case False
  then have "(h @ sell_side snapshot tid sid) ! length h = hd (sell_side snapshot tid sid)"
    by (cases "sell_side snapshot tid sid") (simp_all add: nth_append)
  moreover from False have
    "[length h..<length h + length (sell_side snapshot tid sid)] ! 0 = length h"
    by (cases "sell_side snapshot tid sid") (simp_all add: upt_rec)
  ultimately show ?thesis using False
    by (simp add: spread_return_def extract_sell_orders_def extract_buy_orders_def allocate_def
        split: option.splits)
qed

lemma spread_return_value:
  "map_sum id fst (spread_return cr snapshot tid sid rid h1) =
   map_sum id fst (spread_return cr snapshot tid sid rid h2)"
proof -
  have bid: "best_bid_search cr rid sid
        [length (h1 @ sell_side snapshot tid sid)..<
         length (h1 @ sell_side snapshot tid sid) + length (buy_side snapshot tid)]
        ((h1 @ sell_side snapshot tid sid) @ buy_side snapshot tid)
      = best_bid_search cr rid sid
        [length (h2 @ sell_side snapshot tid sid)..<
         length (h2 @ sell_side snapshot tid sid) + length (buy_side snapshot tid)]
        ((h2 @ sell_side snapshot tid sid) @ buy_side snapshot tid)"
    by (rule best_bid_search_alike) (simp only: cells_fresh)
  show ?thesis
    unfolding spread_return_form[of cr snapshot tid sid rid h1]
      spread_return_form[of cr snapshot tid sid rid h2] bid
    by (simp split: option.splits)
qed

lemma spread_return_grows:
  "spread_return cr snapshot tid sid rid h = Inr (sd, h') \<Longrightarrow> \<exists>ext. h' = h @ ext"
  unfolding spread_return_form by (auto split: if_splits option.splits)

lemma add_material_fields:
  "heap (add_material mid orders budget sd h st) = h"
  "sell_order_list (add_material mid orders budget sd h st) = sell_order_list st"
  "map_of (buy_order_map (add_material mid orders budget sd h st)) =
     (map_of (buy_order_map st))(mid \<mapsto> orders)"
  "all_buy_orders (add_material mid orders budget sd h st) = all_buy_orders st"
  "gross_acc (add_material mid orders budget sd h st) = gross_acc st"
  "cost_acc (add_material mid orders budget sd h st) = cost_acc st"
  by (simp_all add: add_material_def update_conv')

lemma touched_add_material:
  "touched (add_material mid orders budget sd h st) \<subseteq> touched st \<union> set orders"
  unfolding touched_def add_material_fields by (auto split: if_splits)

lemma setup_materials_step:
  "setup_materials cr snapshot rid sid ms vlimit (next_mat # rest) st =
     (case summary_volume ms (materialTypeID next_mat) of
        Inl e \<Rightarrow> Inl e
      | Inr v \<Rightarrow>
         (case spread_return cr snapshot (materialTypeID next_mat) sid rid
                 (heap st @ buy_side snapshot (materialTypeID next_mat)) of
            Inl e \<Rightarrow> Inl e
          | Inr (sr_data, h2) \<Rightarrow>
              setup_materials cr snapshot rid sid ms vlimit rest
                (add_material (materialTypeID next_mat)
                   [length (heap st)..<length (heap st) + length (buy_side snapshot (materialTypeID next_mat))]
                   (of_int v * vlimit) sr_data h2 st)))"
  by (simp add: extract_buy_orders_def allocate_def add_material_def split: sum.splits)

lemma add_material_owned:
  assumes o: "owned st" and h: "h = (heap st @ rows) @ ext"
    and orders: "orders = [length (heap st)..<length (heap st) + length rows]"
  shows "owned (add_material mid orders budget sd h st)"
proof -
  let ?st = "add_material mid orders budget sd h st"
  have old: "\<forall>a\<in>touched st. a < length (heap st)" using o unfolding owned_def by blast
  have new: "\<forall>a\<in>set orders. length (heap st) \<le> a \<and> a < length h" using h orders by auto
  have lookup: "map_of (buy_order_map st) k = Some l \<Longrightarrow> set l \<subseteq> touched st" for k l
    unfolding touched_def by auto
  have sells: "set (sell_order_list st) \<subseteq> touched st" unfolding touched_def by auto
  show ?thesis
    unfolding owned_def
  proof (intro conjI allI impI ballI)
    show "distinct (sell_order_list ?st)"
      using owned_sell[OF o] by (simp add: add_material_fields)
  next
    fix a assume "a \<in> touched ?st"
    with touched_add_material[of mid orders budget sd h st] have "a \<in> touched st \<union> set orders"
      by blast
    with old new h show "a < length (heap ?st)" by (auto simp: add_material_fields)
  next
    fix k l assume kl: "map_of (buy_order_map ?st) k = Some l"
    show "distinct l"
    proof (cases "k = mid")
      case True
      with kl have "l = orders" by (simp add: add_material_fields)
      then show ?thesis unfolding orders by simp
    next
      case False
      with kl have "map_of (buy_order_map st) k = Some l" by (simp add: add_material_fields)
      from owned_buy[OF o this] show ?thesis by simp
    qed
    show "set l \<inter> set (sell_order_list ?st) = {}"
    proof (cases "k = mid")
      case True
      with kl have "l = orders" by (simp add: add_material_fields)
      with new old sells show ?thesis by (fastforce simp: add_material_fields)
    next
      case False
      with kl have "map_of (buy_order_map st) k = Some l" by (simp add: add_material_fields)
      from owned_buy[OF o this] show ?thesis by (simp add: add_material_fields)
    qed
  next
    fix k l k' l'
    assume kl: "map_of (buy_order_map ?st) k = Some l"
      and kl': "map_of (buy_order_map ?st) k' = Some l'" and ne: "k \<noteq> k'"
    show "set l \<inter> set l' = {}"
    proof (cases "k = mid")
      case True
      with kl have l: "l = orders" by (simp add: add_material_fields)
      from True ne kl' have "map_of (buy_order_map st) k' = Some l'"
        by (simp add: add_material_fields)
      from lookup[OF this] old new l show ?thesis by fastforce
    next
      case False
      with kl have m: "map_of (buy_order_map st) k = Some l" by (simp add: add_material_fields)
      show ?thesis
      proof (cases "k' = mid")
        case True
        with kl' have "l' = orders" by (simp add: add_material_fields)
        with lookup[OF m] old new show ?thesis by fastforce
      next
        case k': False
        with kl' have "map_of (buy_order_map st) k' = Some l'" by (simp add: add_material_fields)
        from owned_two[OF o m this ne] show ?thesis .
      qed
    qed
  qed
qed

lemma add_material_beyond:
  assumes "beyond n st" "n \<le> length (heap st)"
    and "orders = [length (heap st)..<length (heap st) + k]"
  shows "beyond n (add_material mid orders budget sd h st)"
  unfolding beyond_def
proof
  fix a assume "a \<in> touched (add_material mid orders budget sd h st)"
  with touched_add_material[of mid orders budget sd h st] have "a \<in> touched st \<union> set orders"
    by blast
  with assms show "n \<le> a" by (auto simp: beyond_def)
qed

lemma add_material_alike:
  assumes al: "alike s t" and os: "owned s" and ot: "owned t"
    and h1: "h1 = (heap s @ rows) @ ext1" and h2: "h2 = (heap t @ rows) @ ext2"
    and o1: "orders1 = [length (heap s)..<length (heap s) + length rows]"
    and o2: "orders2 = [length (heap t)..<length (heap t) + length rows]"
  shows "alike (add_material mid orders1 budget sd h1 s) (add_material mid orders2 budget sd h2 t)"
proof (rule alikeI)
  have "cells h1 (sell_order_list s) = cells (heap s) (sell_order_list s)"
    unfolding h1 append_assoc using owned_sell[OF os] by (intro cells_append_heap) simp
  moreover have "cells h2 (sell_order_list t) = cells (heap t) (sell_order_list t)"
    unfolding h2 append_assoc using owned_sell[OF ot] by (intro cells_append_heap) simp
  ultimately show "cells (heap (add_material mid orders1 budget sd h1 s))
        (sell_order_list (add_material mid orders1 budget sd h1 s)) =
      cells (heap (add_material mid orders2 budget sd h2 t))
        (sell_order_list (add_material mid orders2 budget sd h2 t))"
    using alike_sell[OF al] by (simp add: add_material_fields)
next
  show "map fst (buy_order_map (add_material mid orders1 budget sd h1 s)) =
      map fst (buy_order_map (add_material mid orders2 budget sd h2 t))"
    using alike_keys[OF al] by (simp add: add_material_def update_keys)
next
  fix k l l'
  assume kl: "map_of (buy_order_map (add_material mid orders1 budget sd h1 s)) k = Some l"
    and kl': "map_of (buy_order_map (add_material mid orders2 budget sd h2 t)) k = Some l'"
  show "cells (heap (add_material mid orders1 budget sd h1 s)) l =
      cells (heap (add_material mid orders2 budget sd h2 t)) l'"
  proof (cases "k = mid")
    case True
    with kl kl' have "l = orders1" "l' = orders2" by (simp_all add: add_material_fields)
    then show ?thesis
      unfolding add_material_fields h1 h2 o1 o2 by (simp only: cells_fresh_ext)
  next
    case False
    with kl kl' have m: "map_of (buy_order_map s) k = Some l" "map_of (buy_order_map t) k = Some l'"
      by (simp_all add: add_material_fields)
    have "cells h1 l = cells (heap s) l"
      unfolding h1 append_assoc using owned_buy[OF os m(1)] by (intro cells_append_heap) simp
    moreover have "cells h2 l' = cells (heap t) l'"
      unfolding h2 append_assoc using owned_buy[OF ot m(2)] by (intro cells_append_heap) simp
    ultimately show ?thesis using alike_buy[OF al m] by (simp add: add_material_fields)
  qed
qed (use alike_rest[OF al] in \<open>simp_all add: add_material_def\<close>)

lemma setup_materials_grows:
  assumes "setup_materials cr snapshot rid sid ms vlimit mats st = Inr st'"
    and "owned st" and "beyond n st" and "n \<le> length (heap st)"
  shows "owned st' \<and> beyond n st' \<and> (\<exists>ext. heap st' = heap st @ ext)"
  using assms
proof (induction mats arbitrary: st)
  case Nil
  then show ?case by simp
next
  case (Cons next_mat rest)
  let ?mid = "materialTypeID next_mat"
  let ?rows = "buy_side snapshot ?mid"
  let ?orders = "[length (heap st)..<length (heap st) + length ?rows]"
  from Cons.prems(1) obtain v where v: "summary_volume ms ?mid = Inr v"
    unfolding setup_materials_step by (auto split: sum.splits)
  from Cons.prems(1) v obtain sd h2 where
    sr: "spread_return cr snapshot ?mid sid rid (heap st @ ?rows) = Inr (sd, h2)"
    unfolding setup_materials_step by (auto split: sum.splits)
  from spread_return_grows[OF sr] obtain ext where h2: "h2 = (heap st @ ?rows) @ ext" by auto
  let ?st = "add_material ?mid ?orders (of_int v * vlimit) sd h2 st"
  from Cons.prems(1) v sr have run: "setup_materials cr snapshot rid sid ms vlimit rest ?st = Inr st'"
    unfolding setup_materials_step by simp
  have o: "owned ?st" using Cons.prems(2) h2 by (rule add_material_owned) simp
  have a: "beyond n ?st" using Cons.prems(3,4) by (rule add_material_beyond) simp
  have l: "n \<le> length (heap ?st)" using Cons.prems(4) h2 by (simp add: add_material_fields)
  from Cons.IH[OF run o a l] obtain ext' where
    "owned st'" "beyond n st'" "heap st' = heap ?st @ ext'" by auto
  then show ?case using h2 by (simp add: add_material_fields)
qed

lemma setup_materials_alike:
  assumes "alike s t" "owned s" "owned t"
  shows "rel_sum (=) alike (setup_materials cr snapshot rid sid ms vlimit mats s)
           (setup_materials cr snapshot rid sid ms vlimit mats t)"
  using assms
proof (induction mats arbitrary: s t)
  case Nil
  then show ?case by simp
next
  case (Cons next_mat rest)
  let ?mid = "materialTypeID next_mat"
  let ?rows = "buy_side snapshot ?mid"
  show ?case
  proof (cases "summary_volume ms ?mid")
    case (Inl e)
    then show ?thesis unfolding setup_materials_step by simp
  next
    case v: (Inr v)
    note sv = spread_return_value[of cr snapshot ?mid sid rid "heap s @ ?rows" "heap t @ ?rows"]
    show ?thesis
    proof (cases "spread_return cr snapshot ?mid sid rid (heap s @ ?rows)")
      case (Inl e)
      with sv have "spread_return cr snapshot ?mid sid rid (heap t @ ?rows) = Inl e"
        by (cases "spread_return cr snapshot ?mid sid rid (heap t @ ?rows)") auto
      with Inl v show ?thesis unfolding setup_materials_step by simp
    next
      case (Inr x)
      with sv obtain y where y: "spread_return cr snapshot ?mid sid rid (heap t @ ?rows) = Inr y"
        by (cases "spread_return cr snapshot ?mid sid rid (heap t @ ?rows)") auto
      obtain sd h1 where x: "x = (sd, h1)" by (cases x) auto
      obtain sd' h2 where y': "y = (sd', h2)" by (cases y) auto
      from sv Inr y x y' have sd: "sd' = sd" by simp
      from spread_return_grows[OF Inr[unfolded x]] obtain e1 where h1: "h1 = (heap s @ ?rows) @ e1"
        by auto
      from spread_return_grows[OF y[unfolded y']] obtain e2 where h2: "h2 = (heap t @ ?rows) @ e2"
        by auto
      let ?s = "add_material ?mid [length (heap s)..<length (heap s) + length ?rows]
                  (of_int v * vlimit) sd h1 s"
      let ?t = "add_material ?mid [length (heap t)..<length (heap t) + length ?rows]
                  (of_int v * vlimit) sd h2 t"
      have al: "alike ?s ?t" using Cons.prems h1 h2 by (rule add_material_alike) simp_all
      have os: "owned ?s" using Cons.prems(2) h1 by (rule add_material_owned) simp
      have ot: "owned ?t" using Cons.prems(3) h2 by (rule add_material_owned) simp
      from Cons.IH[OF al os ot] show ?thesis
        unfolding setup_materials_step[of _ _ _ _ _ _ next_mat] using v Inr y x y' sd by simp
    qed
  qed
qed

lemma start_state_owned:
  "owned (start_state [length h..<length h + length rows] (h @ rows))"
  by (simp add: owned_def touched_def start_state_def)

lemma start_state_beyond:
  "beyond (length h) (start_state [length h..<length h + length rows] (h @ rows))"
  by (simp add: beyond_def touched_def start_state_def)

lemma start_state_length: "length h \<le> length (heap (start_state orders (h @ rows)))"
  by (simp add: start_state_def)

lemma start_state_alike:
  "alike (start_state [length h1..<length h1 + length rows] (h1 @ rows))
         (start_state [length h2..<length h2 + length rows] (h2 @ rows))"
  by (rule alikeI) (simp_all add: start_state_def cells_fresh)

lemma prepare_form:
  "prepare cr snapshot tid rid sid tmap tax eff stax fee ms vlimit h =
     (case compute_threshold tax fee of
        Inl e \<Rightarrow> Inl e
      | Inr threshold \<Rightarrow>
        (case lookup tmap tid of
           Inl e \<Rightarrow> Inl e
         | Inr src \<Rightarrow>
             (case setup_materials cr snapshot rid sid ms vlimit (map snd (material_map src))
                     (start_state [length h..<length h + length (sell_side snapshot tid sid)]
                        (h @ sell_side snapshot tid sid)) of
                Inl e \<Rightarrow> Inl e
              | Inr st \<Rightarrow>
                  Inr (\<lparr>check_range = cr, region_id = rid, station_id = sid,
                        materials = material_map src, required_volume = portionSize src,
                        tax_rate = tax, efficiency = eff, station_tax = stax,
                        broker_fee = fee, limit_threshold = threshold\<rparr>, st))))"
  by (simp add: prepare_def extract_sell_orders_def allocate_def start_state_def
      split: sum.splits)

lemma prepare_alike:
  "rel_sum (=) (\<lambda>x y. fst x = fst y \<and> alike (snd x) (snd y) \<and> owned (snd x) \<and> owned (snd y))
     (prepare cr snapshot tid rid sid tmap tax eff stax fee ms vlimit h1)
     (prepare cr snapshot tid rid sid tmap tax eff stax fee ms vlimit h2)"
proof (cases "compute_threshold tax fee")
  case (Inl e)
  then show ?thesis unfolding prepare_form by simp
next
  case th: (Inr threshold)
  show ?thesis
  proof (cases "lookup tmap tid")
    case (Inl e)
    with th show ?thesis unfolding prepare_form by simp
  next
    case src: (Inr src)
    let ?rows = "sell_side snapshot tid sid"
    let ?s = "start_state [length h1..<length h1 + length ?rows] (h1 @ ?rows)"
    let ?t = "start_state [length h2..<length h2 + length ?rows] (h2 @ ?rows)"
    let ?mats = "map snd (material_map src)"
    note sa = setup_materials_alike[OF start_state_alike start_state_owned start_state_owned,
        of cr snapshot rid sid ms vlimit ?mats h1 ?rows h2]
    show ?thesis
    proof (cases "setup_materials cr snapshot rid sid ms vlimit ?mats ?s")
      case (Inl e)
      with sa have "setup_materials cr snapshot rid sid ms vlimit ?mats ?t = Inl e"
        by (cases "setup_materials cr snapshot rid sid ms vlimit ?mats ?t") auto
      with Inl th src show ?thesis unfolding prepare_form by simp
    next
      case (Inr s')
      with sa obtain t' where t': "setup_materials cr snapshot rid sid ms vlimit ?mats ?t = Inr t'"
        and al: "alike s' t'"
        by (cases "setup_materials cr snapshot rid sid ms vlimit ?mats ?t") auto
      have "owned s'"
        using setup_materials_grows[OF Inr start_state_owned start_state_beyond start_state_length] by simp
      moreover have "owned t'"
        using setup_materials_grows[OF t' start_state_owned start_state_beyond start_state_length] by simp
      ultimately show ?thesis using Inr t' al th src unfolding prepare_form by simp
    qed
  qed
qed

lemma prepare_frame:
  assumes "prepare cr snapshot tid rid sid tmap tax eff stax fee ms vlimit h = Inr (E, st)"
  shows "beyond (length h) st \<and> (\<exists>ext. heap st = h @ ext)"
proof -
  let ?rows = "sell_side snapshot tid sid"
  let ?s = "start_state [length h..<length h + length ?rows] (h @ ?rows)"
  from assms have "\<exists>src :: source_type.
      setup_materials cr snapshot rid sid ms vlimit (map snd (material_map src)) ?s = Inr st"
    unfolding prepare_form by (auto split: sum.splits)
  then obtain src :: source_type where
    "setup_materials cr snapshot rid sid ms vlimit (map snd (material_map src)) ?s = Inr st"
    by blast
  from setup_materials_grows[OF this start_state_owned start_state_beyond start_state_length]
  obtain ext where "beyond (length h) st" "heap st = heap ?s @ ext" by auto
  then show ?thesis by (simp add: start_state_def)
qed

lemma alike_report: "alike s t \<Longrightarrow> report s = report t"
  using alike_rest[of s t] by (simp add: report_def)

lemma attempt_value:
  "map_option (map_sum id fst)
     (attempt_opportunity cr snapshot tid rid sid tmap tax eff stax fee ms vlimit h1) =
   map_option (map_sum id fst)
     (attempt_opportunity cr snapshot tid rid sid tmap tax eff stax fee ms vlimit h2)"
proof -
  note pa = prepare_alike[of cr snapshot tid rid sid tmap tax eff stax fee ms vlimit h1 h2]
  show ?thesis
  proof (cases "prepare cr snapshot tid rid sid tmap tax eff stax fee ms vlimit h1")
    case (Inl e)
    with pa have "prepare cr snapshot tid rid sid tmap tax eff stax fee ms vlimit h2 = Inl e"
      by (cases "prepare cr snapshot tid rid sid tmap tax eff stax fee ms vlimit h2") auto
    with Inl show ?thesis by (simp add: attempt_opportunity_def)
  next
    case (Inr x)
    with pa obtain y where y: "prepare cr snapshot tid rid sid tmap tax eff stax fee ms vlimit h2 = Inr y"
      by (cases "prepare cr snapshot tid rid sid tmap tax eff stax fee ms vlimit h2") auto
    obtain E s where x: "x = (E, s)" by (cases x) auto
    obtain E' t where y': "y = (E', t)" by (cases y) auto
    from pa Inr y x y' have e: "E' = E" and al: "alike s t" and o: "owned s" "owned t" by simp_all
    note ra = rounds_alike[OF al o, of E]
    show ?thesis
    proof (cases "rounds E s")
      case None
      with ra have "rounds E t = None" by (cases "rounds E t") auto
      with None Inr y x y' e show ?thesis by (simp add: attempt_opportunity_def)
    next
      case (Some r)
      with ra obtain r' where r': "rounds E t = Some r'" and rel: "rel_sum (=) alike r r'"
        by (cases "rounds E t") auto
      show ?thesis
      proof (cases r)
        case (Inl err)
        with rel have "r' = Inl err" by (cases r') auto
        with Inl Some r' Inr y x y' e show ?thesis by (simp add: attempt_opportunity_def)
      next
        case fin: (Inr s')
        with rel obtain t' where t': "r' = Inr t'" and "alike s' t'" by (cases r') auto
        from alike_report[OF this(2)] fin t' Some r' Inr y x y' e show ?thesis
          by (simp add: attempt_opportunity_def)
      qed
    qed
  qed
qed

lemma attempt_frame:
  assumes "attempt_opportunity cr snapshot tid rid sid tmap tax eff stax fee ms vlimit h
             = Some (Inr (r, h'))"
  shows "\<exists>ext. h' = h @ ext"
proof -
  from assms obtain E st0 st where
    p: "prepare cr snapshot tid rid sid tmap tax eff stax fee ms vlimit h = Inr (E, st0)"
    and rd: "rounds E st0 = Some (Inr st)" and h': "h' = heap st"
    by (auto simp: attempt_opportunity_def split: sum.splits option.splits prod.splits)
  from prepare_frame[OF p] obtain ext where ab: "beyond (length h) st0" and h0: "heap st0 = h @ ext"
    by auto
  note st = rounds_settled[OF rd]
  have len: "length (heap st) = length (heap st0)" using st by (simp add: settled_def)
  have "take (length h) (heap st) = h"
  proof (rule nth_equalityI)
    show "length (take (length h) (heap st)) = length h" using len h0 by simp
  next
    fix i assume "i < length (take (length h) (heap st))"
    then have i: "i < length h" by simp
    with ab have "i \<notin> touched st0" by (auto simp: beyond_def)
    with st have "heap st ! i = heap st0 ! i" by (simp add: settled_def)
    with i h0 show "take (length h) (heap st) ! i = h ! i" by (simp add: nth_append)
  qed
  then have "heap st = h @ drop (length h) (heap st)"
    by (metis append_take_drop_id)
  with h' show ?thesis by blast
qed

lemma scan_types_value:
  assumes "\<And>snapshot tid h1 h2. map_option (map_sum id fst) (att snapshot tid h1) =
             map_option (map_sum id fst) (att snapshot tid h2)"
  shows "map_option (map_sum id fst) (scan_types att tm snapshot types opps h1) =
         map_option (map_sum id fst) (scan_types att tm snapshot types opps h2)"
proof (induction types arbitrary: opps h1 h2)
  case Nil
  show ?case by simp
next
  case (Cons src rest)
  note a = assms[of snapshot "typeID src" h1 h2]
  show ?case
  proof (cases "att snapshot (typeID src) h1")
    case None
    with a have "att snapshot (typeID src) h2 = None" by simp
    with None show ?thesis by simp
  next
    case (Some r)
    with a obtain r' where r': "att snapshot (typeID src) h2 = Some r'"
      and m: "map_sum id fst r = map_sum id fst r'" by (cases "att snapshot (typeID src) h2") auto
    show ?thesis
    proof (cases r)
      case (Inl e)
      with m have "r' = Inl e" by (cases r') auto
      with Inl Some r' show ?thesis by simp
    next
      case (Inr x)
      with m obtain y where y: "r' = Inr y" and f: "fst x = fst y" by (cases r') auto
      obtain res g where x: "x = (res, g)" by (cases x) auto
      obtain res' g' where y': "y = (res', g')" by (cases y) auto
      from f x y' have e: "res' = res" by simp
      show ?thesis
        using Some r' Inr y x y' e Cons.IH by (cases res) simp_all
    qed
  qed
qed

lemma scan_types_grows:
  assumes "\<And>snapshot tid h r h'. att snapshot tid h = Some (Inr (r, h')) \<Longrightarrow> \<exists>ext. h' = h @ ext"
  shows "scan_types att tm snapshot types opps h = Some (Inr (opps', h')) \<Longrightarrow> \<exists>ext. h' = h @ ext"
proof (induction types arbitrary: opps h)
  case Nil
  then show ?case by simp
next
  case (Cons src rest)
  from Cons.prems obtain res g where a: "att snapshot (typeID src) h = Some (Inr (res, g))"
    by (auto split: option.splits sum.splits)
  from assms[OF a] obtain ext where g: "g = h @ ext" by auto
  from Cons.prems a obtain opps1 where
    "scan_types att tm snapshot rest opps1 g = Some (Inr (opps', h'))"
    by (cases res) auto
  from Cons.IH[OF this] g show ?case by auto
qed

lemma scan_snapshots_value:
  assumes "\<And>snapshot tid h1 h2. map_option (map_sum id fst) (att snapshot tid h1) =
             map_option (map_sum id fst) (att snapshot tid h2)"
  shows "map_option (map_sum id fst) (scan_snapshots att book types opps h1) =
         map_option (map_sum id fst) (scan_snapshots att book types opps h2)"
proof (induction book arbitrary: opps h1 h2)
  case Nil
  show ?case by simp
next
  case (Cons grp rest)
  note a = scan_types_value[of att "fst grp" "snd grp" types opps h1 h2, OF assms]
  show ?case
  proof (cases "scan_types att (fst grp) (snd grp) types opps h1")
    case None
    with a have "scan_types att (fst grp) (snd grp) types opps h2 = None" by simp
    with None show ?thesis by simp
  next
    case (Some r)
    with a obtain r' where r': "scan_types att (fst grp) (snd grp) types opps h2 = Some r'"
      and m: "map_sum id fst r = map_sum id fst r'"
      by (cases "scan_types att (fst grp) (snd grp) types opps h2") auto
    show ?thesis
    proof (cases r)
      case (Inl e)
      with m have "r' = Inl e" by (cases r') auto
      with Inl Some r' show ?thesis by simp
    next
      case (Inr x)
      with m obtain y where y: "r' = Inr y" and f: "fst x = fst y" by (cases r') auto
      obtain res g where x: "x = (res, g)" by (cases x) auto
      obtain res' g' where y': "y = (res', g')" by (cases y) auto
      from f x y' have e: "res' = res" by simp
      show ?thesis
        using Some r' Inr y x y' e Cons.IH by simp
    qed
  qed
qed

lemma scan_snapshots_grows:
  assumes "\<And>snapshot tid h r h'. att snapshot tid h = Some (Inr (r, h')) \<Longrightarrow> \<exists>ext. h' = h @ ext"
  shows "scan_snapshots att book types opps h = Some (Inr (opps', h')) \<Longrightarrow> \<exists>ext. h' = h @ ext"
proof (induction book arbitrary: opps h)
  case Nil
  then show ?case by simp
next
  case (Cons grp rest)
  from Cons.prems obtain opps1 g where
    a: "scan_types att (fst grp) (snd grp) types opps h = Some (Inr (opps1, g))"
    by (auto split: option.splits sum.splits)
  have "\<exists>ext. g = h @ ext" by (rule scan_types_grows[OF _ a]) (rule assms)
  then obtain ext where g: "g = h @ ext" by auto
  from Cons.prems a have "scan_snapshots att rest types opps1 g = Some (Inr (opps', h'))" by simp
  from Cons.IH[OF this] g show ?case by auto
qed

section \<open>The loop over the rounds ends\<close>

lemma available_cells: "available h as = sum_list (map (\<lambda>x. max 0 (volume x)) (cells h as))"
  by (simp add: available_def cells_def comp_def)

lemma available_same: "\<forall>a\<in>set as. h' ! a = h ! a \<Longrightarrow> available h' as = available h as"
  using cells_same[of as h' h] by (simp add: available_cells)

lemma buy_loop_consumes:
  assumes "0 < bv" "distinct as" "\<forall>a\<in>set as. a < length h"
    and "buy_loop bv pot as h = (r, left, h')" "r \<noteq> []"
  shows "available h' as + bv \<le> available h as"
  using assms
proof (induction bv pot as h arbitrary: r left h' rule: buy_loop.induct)
  case (1 bv pot h)
  then show ?case by simp
next
  case (2 bv pot a rest h)
  note run = 2(6)
  from 2(4) have nin: "a \<notin> set rest" and d: "distinct rest" by simp_all
  from 2(5) have b: "a < length h" and bs: "\<forall>x\<in>set rest. x < length h" by simp_all
  define amt where "amt = fill_amount bv (h ! a)"
  define k where "k = h[a := consume (h ! a) amt]"
  have krest: "available k rest = available h rest"
    unfolding available_cells k_def by (simp add: cells_update_other[OF nin])
  have ka: "volume (k ! a) = volume (h ! a) - amt" using b by (simp add: k_def consume_def)
  show ?case
  proof (cases "min_volume (h ! a) \<le> bv \<and> 0 < volume (h ! a)")
    case True
    show ?thesis
    proof (cases "bv - fill_amount bv (h ! a) = 0")
      case z: True
      from run have "h' = k" unfolding buy_loop_fill_done[OF True z] by (simp add: k_def amt_def)
      moreover from z have "amt = bv" "bv \<le> volume (h ! a)" by (simp_all add: amt_def fill_amount_def)
      ultimately show ?thesis using krest ka True by (simp add: available_Cons)
    next
      case nz: False
      then have amt: "amt = volume (h ! a)" "volume (h ! a) < bv"
        by (auto simp: amt_def fill_amount_def min_def split: if_splits)
      from run have r: "buy_loop (bv - amt) (pot @ [make_record (h ! a) amt]) rest k = (r, left, h')"
        unfolding buy_loop_fill_more[OF True nz] by (simp add: k_def amt_def)
      have pos: "0 < bv - fill_amount bv (h ! a)" using amt by (simp add: amt_def)
      have bk: "\<forall>x\<in>set rest. x < length (h[a := consume (h ! a) (fill_amount bv (h ! a))])"
        using bs by simp
      from 2(1)[OF True nz pos d bk r[unfolded k_def amt_def] 2(7)]
      have ih: "available h' rest + (bv - amt) \<le> available k rest" by (simp add: k_def amt_def)
      have "h' ! a = k ! a" using buy_loop_frame[OF r] nin by simp
      then have "max 0 (volume (h' ! a)) = 0" using ka amt by simp
      then show ?thesis using ih krest amt True by (simp add: available_Cons)
    qed
  next
    case False
    from 2(3) have nz: "bv \<noteq> 0" by simp
    from run have r: "buy_loop bv pot rest h = (r, left, h')"
      unfolding buy_loop_skip_more[OF False nz] .
    from 2(2)[OF False nz 2(3) d bs r 2(7)] have ih: "available h' rest + bv \<le> available h rest" .
    have "h' ! a = h ! a" using buy_loop_frame[OF r] nin by simp
    then show ?thesis using ih by (simp add: available_Cons)
  qed
qed

lemma sell_material_keeps_sells:
  assumes "sell_material E m st = Inr (fl, sold, st')" "owned st"
  shows "\<forall>a\<in>set (sell_order_list st). heap st' ! a = heap st ! a"
proof -
  from assms(1) obtain sd where sd: "lookup (spread_data st) m = Inr sd"
    by (auto simp: sell_material_def split: sum.splits)
  from assms(1) sd obtain mat where mat: "lookup (materials E) m = Inr mat"
    by (auto simp: sell_material_def split: sum.splits)
  show ?thesis
  proof (cases "limit_sell E sd")
    case True
    with assms(1) sd mat show ?thesis
      by (auto simp: sell_material_def split: sum.splits if_splits option.splits)
  next
    case False
    with assms(1) sd mat obtain l where l: "lookup (buy_order_map st) m = Inr l"
      by (auto simp: sell_material_def split: sum.splits)
    then have ml: "map_of (buy_order_map st) m = Some l"
      by (simp add: lookup_def split: option.splits)
    from assms(1) sd mat False l obtain h' where
      run: "attempt_sell_type_list (check_range E) (region_id E) (station_id E)
              (py_int (of_int (quantity mat) * efficiency E)) l (heap st) = (sold, h')"
      and st': "st' = st\<lparr>heap := h'\<rparr>"
      by (auto simp: sell_material_def split: prod.splits)
    from attempt_sell_frame[OF run] owned_buy[OF assms(2) ml] st' show ?thesis by auto
  qed
qed

lemma sell_materials_keeps_sells:
  "sell_materials E ks so cg cc st = Inr (so', cg', cc', st') \<Longrightarrow> owned st \<Longrightarrow>
     \<forall>a\<in>set (sell_order_list st). heap st' ! a = heap st ! a"
proof (induction ks arbitrary: so cg cc st)
  case Nil
  then show ?case by simp
next
  case (Cons m ks)
  from Cons.prems obtain fl sold st1 where sm: "sell_material E m st = Inr (fl, sold, st1)"
    by (auto split: sum.splits)
  note k1 = sell_material_keeps_sells[OF sm Cons.prems(2)]
  note s1 = sell_material_settled[OF sm]
  show ?case
  proof (cases "length sold = 0")
    case True
    with Cons.prems sm have "st' = st1" by simp
    with k1 show ?thesis by simp
  next
    case False
    with Cons.prems sm have run: "sell_materials E ks (AList.update m sold so)
        (cg + gross_ratio E fl * order_value sold) (cc + station_tax E * order_value sold) st1
        = Inr (so', cg', cc', st')" by simp
    have "sell_order_list st1 = sell_order_list st" using s1 by (simp add: settled_def)
    with Cons.IH[OF run settled_owned[OF s1 Cons.prems(2)]] k1 show ?thesis by simp
  qed
qed

lemma traded_consumes:
  assumes "one_round E st = Inr (Traded b so cg cc st2)" "owned st" "0 < required_volume E"
  shows "available (heap st2) (sell_order_list st2) < available (heap st) (sell_order_list st) \<and>
         owned st2"
proof -
  obtain b' g where buy: "attempt_buy_type_list (required_volume E) (sell_order_list st) (heap st) = (b', g)"
    by (cases "attempt_buy_type_list (required_volume E) (sell_order_list st) (heap st)")
  from assms(1) buy have nb: "b' \<noteq> []"
    by (auto simp: one_round_def split: if_splits)
  from assms(1) buy nb have sm: "sell_materials E (map fst (buy_order_map st)) [] 0
      (order_value b') (st\<lparr>heap := g\<rparr>) = Inr (so, cg, cc, st2)"
    by (auto simp: one_round_def split: sum.splits if_splits)
  obtain left where bl: "buy_loop (required_volume E) [] (sell_order_list st) (heap st) = (b', left, g)"
    using buy by (auto simp: attempt_buy_type_list_def split: prod.splits)
  from buy_loop_consumes[OF assms(3) _ _ bl nb] owned_sell[OF assms(2)]
  have less: "available g (sell_order_list st) < available (heap st) (sell_order_list st)"
    using assms(3) by simp
  have o1: "owned (st\<lparr>heap := g\<rparr>)" using buy_step_settled[OF buy] assms(2) by (rule settled_owned)
  from sell_materials_keeps_sells[OF sm o1]
  have "available (heap st2) (sell_order_list st) = available g (sell_order_list st)"
    by (intro available_same) simp
  moreover have s2: "settled (st\<lparr>heap := g\<rparr>) st2" by (rule sell_materials_settled[OF sm])
  then have "sell_order_list st2 = sell_order_list st" by (simp add: settled_def)
  ultimately show ?thesis using less settled_owned[OF s2 o1] by simp
qed

lemma rounds_terminates:
  assumes "owned st" "0 < required_volume E"
  shows "\<exists>y. rounds E st = Some y"
  using assms(1)
proof (induction "nat (available (heap st) (sell_order_list st))" arbitrary: st rule: less_induct)
  case less
  show ?case
  proof (cases "one_round E st")
    case (Inl e)
    then have "rounds E st = Some (Inl e)" by (subst rounds.simps) simp
    then show ?thesis by blast
  next
    case (Inr out)
    show ?thesis
    proof (cases out)
      case (Stop st2)
      with Inr have "rounds E st = Some (Inr st2)" by (subst rounds.simps) simp
      then show ?thesis by blast
    next
      case (Traded b so cg cc st2)
      note tc = traded_consumes[OF Inr[unfolded Traded] less.prems assms(2)]
      show ?thesis
      proof (cases "cc < cg")
        case False
        with Inr Traded have "rounds E st = Some (Inr st2)" by (subst rounds.simps) simp
        then show ?thesis by blast
      next
        case True
        show ?thesis
        proof (cases "commit b so cg cc st2")
          case (Inl e)
          with Inr Traded True have "rounds E st = Some (Inl e)" by (subst rounds.simps) simp
          then show ?thesis by blast
        next
          case c: (Inr st3)
          note s3 = commit_settled[OF c]
          have h3: "heap st3 = heap st2" "sell_order_list st3 = sell_order_list st2"
            using c by (auto simp: commit_def split: sum.splits)
          have o3: "owned st3" using s3 tc by (auto intro: settled_owned)
          have "nat (available (heap st3) (sell_order_list st3))
              < nat (available (heap st) (sell_order_list st))"
            using tc h3 available_nonneg[of "heap st2" "sell_order_list st2"] by simp
          from less.hyps[OF this o3] obtain y where "rounds E st3 = Some y" by blast
          moreover from Inr Traded True c have "rounds E st = rounds E st3"
            by (subst rounds.simps) simp
          ultimately show ?thesis by simp
        qed
      qed
    qed
  qed
qed

lemma prepare_owned:
  assumes "prepare cr snapshot tid rid sid tmap tax eff stax fee ms vlimit h = Inr (E, st)"
  shows "owned st"
  using prepare_alike[of cr snapshot tid rid sid tmap tax eff stax fee ms vlimit h h] assms
  by simp

lemma prepare_required:
  "prepare cr snapshot tid rid sid tmap tax eff stax fee ms vlimit h = Inr (E, st) \<Longrightarrow>
     \<exists>src. map_of tmap tid = Some src \<and> required_volume E = portionSize src"
  unfolding prepare_form by (auto simp: lookup_def split: sum.splits option.splits)

lemma attempt_terminates:
  assumes "map_of tmap tid = Some src" "0 < portionSize src"
  shows "\<exists>res. attempt_opportunity cr snapshot tid rid sid tmap tax eff stax fee ms vlimit h = Some res"
proof (cases "prepare cr snapshot tid rid sid tmap tax eff stax fee ms vlimit h")
  case (Inl e)
  then show ?thesis by (simp add: attempt_opportunity_def)
next
  case (Inr x)
  obtain E st where x: "x = (E, st)" by (cases x) auto
  from prepare_required[OF Inr[unfolded x]] assms have "0 < required_volume E" by auto
  from rounds_terminates[OF prepare_owned[OF Inr[unfolded x]] this]
  obtain y where "rounds E st = Some y" by blast
  with Inr x show ?thesis by (cases y) (simp_all add: attempt_opportunity_def)
qed

lemma attempt_returns:
  assumes "\<forall>src\<in>set (map snd tmap). 0 < portionSize src"
  shows "\<exists>res. attempt_opportunity cr snapshot tid rid sid tmap tax eff stax fee ms vlimit h = Some res"
proof (cases "map_of tmap tid")
  case None
  then have "\<exists>e. prepare cr snapshot tid rid sid tmap tax eff stax fee ms vlimit h = Inl e"
    unfolding prepare_form by (auto simp: lookup_def split: sum.splits)
  then show ?thesis by (auto simp: attempt_opportunity_def)
next
  case (Some src)
  then have "(tid, src) \<in> set tmap" by (rule map_of_SomeD)
  then have "src \<in> set (map snd tmap)" by force
  with assms have "0 < portionSize src" by blast
  from attempt_terminates[OF Some this] show ?thesis .
qed

lemma scan_types_returns:
  assumes "\<And>snapshot tid h. \<exists>res. att snapshot tid h = Some res"
  shows "\<exists>res. scan_types att tm snapshot types opps h = Some res"
proof (induction types arbitrary: opps h)
  case Nil
  show ?case by simp
next
  case (Cons src rest)
  from assms obtain res where a: "att snapshot (typeID src) h = Some res" by blast
  show ?case
  proof (cases res)
    case (Inl e)
    with a show ?thesis by simp
  next
    case (Inr x)
    obtain r g where x: "x = (r, g)" by (cases x) auto
    from Cons.IH a Inr x show ?thesis by (cases r) simp_all
  qed
qed

lemma scan_snapshots_returns:
  assumes "\<And>snapshot tid h. \<exists>res. att snapshot tid h = Some res"
  shows "\<exists>res. scan_snapshots att book types opps h = Some res"
proof (induction book arbitrary: opps h)
  case Nil
  show ?case by simp
next
  case (Cons grp rest)
  from scan_types_returns[of att, OF assms] obtain res where
    a: "scan_types att (fst grp) (snd grp) types opps h = Some res" by blast
  show ?case
  proof (cases res)
    case (Inl e)
    with a show ?thesis by simp
  next
    case (Inr x)
    obtain r g where x: "x = (r, g)" by (cases x) auto
    from Cons.IH a Inr x show ?thesis by simp
  qed
qed

lemma find_opportunities_returns:
  assumes "\<forall>src\<in>set (map snd tmap). 0 < portionSize src"
  shows "\<exists>res. find_opportunities cr book tmap sid rid eff tax stax fee ms vlimit h = Some res"
  unfolding find_opportunities_def
  by (rule scan_snapshots_returns) (rule attempt_returns[OF assms])

section \<open>Limit or market mode in a round\<close>

text \<open>No step of the loops writes the spread data.\<close>

lemma sell_material_spread:
  "sell_material E m st = Inr (fl, sold, st') \<Longrightarrow> spread_data st' = spread_data st"
  by (auto simp: sell_material_def split: sum.splits if_splits option.splits prod.splits)

lemma sell_materials_spread:
  "sell_materials E ms so cg cc st = Inr (so', cg', cc', st') \<Longrightarrow> spread_data st' = spread_data st"
proof (induction ms arbitrary: so cg cc st)
  case Nil
  then show ?case by simp
next
  case (Cons m ms)
  from Cons.prems obtain fl sold st1 where sm: "sell_material E m st = Inr (fl, sold, st1)"
    by (auto split: sum.splits)
  show ?case
  proof (cases "length sold = 0")
    case True
    with Cons.prems sm have "st' = st1" by simp
    then show ?thesis using sell_material_spread[OF sm] by simp
  next
    case False
    with Cons.prems sm have "sell_materials E ms (AList.update m sold so)
        (cg + gross_ratio E fl * order_value sold) (cc + station_tax E * order_value sold) st1
        = Inr (so', cg', cc', st')" by simp
    from Cons.IH[OF this] sell_material_spread[OF sm] show ?thesis by simp
  qed
qed

lemma one_round_traded_spread:
  assumes "one_round E st = Inr (Traded bought so cg cc st2)"
  shows "spread_data st2 = spread_data st"
proof -
  obtain b h1 where b: "attempt_buy_type_list (required_volume E) (sell_order_list st) (heap st) = (b, h1)"
    by (cases "attempt_buy_type_list (required_volume E) (sell_order_list st) (heap st)") auto
  from assms b have nb: "b \<noteq> []"
    by (auto simp: one_round_def split: if_splits sum.splits prod.splits)
  from assms b nb have "sell_materials E (map fst (buy_order_map st)) [] 0 (order_value b)
      (st\<lparr>heap := h1\<rparr>) = Inr (so, cg, cc, st2)"
    by (auto simp: one_round_def split: if_splits sum.splits prod.splits)
  from sell_materials_spread[OF this] show ?thesis by simp
qed

lemma one_round_stop_spread:
  assumes "one_round E st = Inr (Stop st2)"
  shows "spread_data st2 = spread_data st"
proof -
  obtain b h1 where b: "attempt_buy_type_list (required_volume E) (sell_order_list st) (heap st) = (b, h1)"
    by (cases "attempt_buy_type_list (required_volume E) (sell_order_list st) (heap st)") auto
  show ?thesis
  proof (cases "length b = 0")
    case True
    with assms b show ?thesis by (auto simp: one_round_def)
  next
    case False
    with assms b obtain so cg cc where "sell_materials E (map fst (buy_order_map st)) [] 0 (order_value b)
      (st\<lparr>heap := h1\<rparr>) = Inr (so, cg, cc, st2)"
      by (auto simp: one_round_def split: if_splits sum.splits prod.splits)
    from sell_materials_spread[OF this] show ?thesis by simp
  qed
qed

lemma commit_spread:
  "commit bought so cg cc st = Inr st' \<Longrightarrow> spread_data st' = spread_data st"
  by (auto simp: commit_def split: sum.splits)

lemma rounds_spread_aux:
  assumes "rounds E st = Some y"
  shows "\<forall>st'. y = Inr st' \<longrightarrow> spread_data st' = spread_data st"
proof (rule rounds.raw_induct[where P = "\<lambda>E st y. \<forall>st'. y = Inr st' \<longrightarrow> spread_data st' = spread_data st",
      OF _ assms])
  fix rnds E st y
  assume 1: "\<And>E st y. rnds E st = Some y \<Longrightarrow> \<forall>st'. y = Inr st' \<longrightarrow> spread_data st' = spread_data st"
    "(case one_round E st of
        Inl e \<Rightarrow> Some (Inl e)
      | Inr (Stop st') \<Rightarrow> Some (Inr st')
      | Inr (Traded bought sold current_gross current_cost st') \<Rightarrow>
          if current_gross > current_cost then
            (case commit bought sold current_gross current_cost st' of
               Inl e \<Rightarrow> Some (Inl e)
             | Inr st'' \<Rightarrow> rnds E st'')
          else Some (Inr st')) = Some y"
  show "\<forall>st'. y = Inr st' \<longrightarrow> spread_data st' = spread_data st"
  proof (intro allI impI)
    fix st'
    assume y: "y = Inr st'"
    show "spread_data st' = spread_data st"
    proof (cases "one_round E st")
      case (Inl e)
      with 1(2) y show ?thesis by simp
    next
      case (Inr out)
      show ?thesis
      proof (cases out)
        case (Stop st2)
        with Inr 1(2) y have "st' = st2" by simp
        with one_round_stop_spread[of E st st2] Inr Stop show ?thesis by simp
      next
        case (Traded bought so cg cc st2)
        note tr = one_round_traded_spread[OF Inr[unfolded Traded]]
        show ?thesis
        proof (cases "cc < cg")
          case False
          with Inr Traded 1(2) y have "st' = st2" by simp
          with tr show ?thesis by simp
        next
          case True
          with Inr Traded 1(2) y obtain st3 where c: "commit bought so cg cc st2 = Inr st3"
            and r: "rnds E st3 = Some (Inr st')"
            by (auto split: sum.splits)
          from 1(1)[OF r] have "spread_data st' = spread_data st3" by simp
          then show ?thesis using commit_spread[OF c] tr by simp
        qed
      qed
    qed
  qed
qed

lemma rounds_spread:
  "rounds E st = Some (Inr st') \<Longrightarrow> spread_data st' = spread_data st"
  using rounds_spread_aux by blast

text \<open>
  The states of \<^const>\<open>round_start\<close> and \<^const>\<open>sale_start\<close> are states of the run: the loop
  entered in the first state goes on as the loop entered in the state reached.
\<close>

lemma round_start_rounds:
  "round_start E st0 st \<Longrightarrow> rounds E st0 = rounds E st"
proof (induction rule: round_start.induct)
  case entered
  show ?case by simp
next
  case (committed st bought sold cg cc st2 st3)
  have "rounds E st = rounds E st3"
    using committed(2,3,4) by (subst rounds.simps) simp
  with committed.IH show ?case by simp
qed

lemma round_start_spread:
  "round_start E st0 st \<Longrightarrow> spread_data st = spread_data st0"
proof (induction rule: round_start.induct)
  case entered
  show ?case by simp
next
  case (committed st bought sold cg cc st2 st3)
  from one_round_traded_spread[OF committed(2)] commit_spread[OF committed(4)] committed.IH
  show ?case by simp
qed

lemma sale_start_loop:
  "sale_start E ks st m t \<Longrightarrow>
     \<exists>rest so' cg' cc'. sell_materials E ks so cg cc st = sell_materials E (m # rest) so' cg' cc' t"
proof (induction arbitrary: so cg cc rule: sale_start.induct)
  case (reached m rest st)
  show ?case by blast
next
  case (passed k st by_limit sold st1 rest m t)
  have "sell_materials E (k # rest) so cg cc st =
      sell_materials E rest (AList.update k sold so)
        (cg + gross_ratio E by_limit * order_value sold) (cc + station_tax E * order_value sold) st1"
    using passed(1,2) by simp
  with passed.IH[of "AList.update k sold so" "cg + gross_ratio E by_limit * order_value sold"
      "cc + station_tax E * order_value sold"]
  show ?case by metis
qed

lemma sale_start_spread:
  "sale_start E ks st m t \<Longrightarrow> spread_data t = spread_data st"
proof (induction rule: sale_start.induct)
  case (reached m rest st)
  show ?case by simp
next
  case (passed k st by_limit sold st1 rest m t)
  from sell_material_spread[OF passed(1)] passed.IH show ?case by simp
qed

text \<open>The spread data of the prepared state are the values of \<^const>\<open>spread_return\<close>.\<close>

lemma setup_materials_spread:
  assumes "setup_materials cr snapshot rid sid ms vlimit mats st = Inr st'"
    and "\<forall>m sd. map_of (spread_data st) m = Some sd \<longrightarrow>
           (\<forall>h0. map_sum id fst (spread_return cr snapshot m sid rid h0) = Inr sd)"
  shows "\<forall>m sd. map_of (spread_data st') m = Some sd \<longrightarrow>
           (\<forall>h0. map_sum id fst (spread_return cr snapshot m sid rid h0) = Inr sd)"
  using assms
proof (induction mats arbitrary: st)
  case Nil
  then show ?case by simp
next
  case (Cons next_mat rest)
  obtain orders h1 where e: "extract_buy_orders snapshot (materialTypeID next_mat) (heap st) = (orders, h1)"
    by (cases "extract_buy_orders snapshot (materialTypeID next_mat) (heap st)") auto
  from Cons.prems(1) e obtain v where v: "summary_volume ms (materialTypeID next_mat) = Inr v"
    by (auto split: sum.splits)
  from Cons.prems(1) e v obtain sr_data h2 where
    s: "spread_return cr snapshot (materialTypeID next_mat) sid rid h1 = Inr (sr_data, h2)"
    by (auto split: sum.splits)
  let ?st1 = "st\<lparr>heap := h2,
       buy_order_map := AList.update (materialTypeID next_mat) orders (buy_order_map st),
       all_sell_orders := AList.update (materialTypeID next_mat) [] (all_sell_orders st),
       limit_order_max :=
         AList.update (materialTypeID next_mat) (of_int v * vlimit) (limit_order_max st),
       spread_data := AList.update (materialTypeID next_mat) sr_data (spread_data st)\<rparr>"
  from Cons.prems(1) e v s have r: "setup_materials cr snapshot rid sid ms vlimit rest ?st1 = Inr st'"
    by simp
  have new: "map_sum id fst (spread_return cr snapshot (materialTypeID next_mat) sid rid h0) = Inr sr_data"
    for h0
    using spread_return_value[of cr snapshot "materialTypeID next_mat" sid rid h0 h1] s by simp
  have "\<forall>m sd. map_of (spread_data ?st1) m = Some sd \<longrightarrow>
           (\<forall>h0. map_sum id fst (spread_return cr snapshot m sid rid h0) = Inr sd)"
  proof (intro allI impI)
    fix m sd h0
    assume a: "map_of (spread_data ?st1) m = Some sd"
    show "map_sum id fst (spread_return cr snapshot m sid rid h0) = Inr sd"
    proof (cases "m = materialTypeID next_mat")
      case True
      with a have "sd = sr_data" by (simp add: update_conv')
      with True new[of h0] show ?thesis by (simp only:)
    next
      case False
      with a have "map_of (spread_data st) m = Some sd" by (simp add: update_conv')
      with Cons.prems(2) show ?thesis by blast
    qed
  qed
  from Cons.IH[OF r this] show ?case .
qed

lemma prepare_spread:
  assumes "prepare cr snapshot tid rid sid tmap tax eff stax fee ms vlimit h = Inr (E, st0)"
    and "map_of (spread_data st0) m = Some sd"
  shows "map_sum id fst (spread_return cr snapshot m sid rid h0) = Inr sd"
proof -
  from assms(1) obtain src :: source_type and orders h1 where
    "setup_materials cr snapshot rid sid ms vlimit (map snd (material_map src))
       \<lparr>heap = h1, sell_order_list = orders, buy_order_map = [],
        all_sell_orders = [], limit_order_max = [], spread_data = [],
        all_buy_orders = [], gross_acc = 0, cost_acc = 0\<rparr> = Inr st0"
    by (auto simp: prepare_def split: sum.splits prod.splits)
  from setup_materials_spread[OF this] assms(2) show ?thesis by simp
qed

lemma prepare_env:
  "prepare cr snapshot tid rid sid tmap tax eff stax fee ms vlimit h = Inr (E, st0) \<Longrightarrow>
     efficiency E = eff \<and> tax_rate E = tax \<and> broker_fee E = fee \<and> check_range E = cr \<and>
     region_id E = rid \<and> station_id E = sid \<and> station_tax E = stax"
  by (auto simp: prepare_def compute_threshold_def split: if_splits sum.splits prod.splits)

text \<open>What one sale sells.\<close>

lemma sell_material_limit:
  assumes "sell_material E m t = Inr (by_limit, sold, t')"
  shows "\<exists>sd mat. map_of (spread_data t) m = Some sd \<and> map_of (materials E) m = Some mat \<and>
     by_limit = (limit_threshold E < sr_value sd) \<and>
     ((sold \<noteq> [] \<and> (\<forall>x\<in>set sold. \<not> market x)) =
      (limit_threshold E < sr_value sd \<and>
       (\<exists>budget. map_of (limit_order_max t) m = Some budget \<and>
          0 < min (of_int (py_int (of_int (quantity mat) * efficiency E))) budget)))"
proof -
  from assms obtain sd where sd: "map_of (spread_data t) m = Some sd"
    by (auto simp: sell_material_def lookup_def split: option.splits)
  from assms obtain mat where mat: "map_of (materials E) m = Some mat"
    by (auto simp: sell_material_def lookup_def sd split: option.splits)
  have fl: "by_limit = (limit_threshold E < sr_value sd)"
    using assms sd mat
    by (auto simp: sell_material_def lookup_def limit_sell_def
        split: option.splits if_splits prod.splits)
  have "(sold \<noteq> [] \<and> (\<forall>x\<in>set sold. \<not> market x)) =
      (limit_threshold E < sr_value sd \<and>
       (\<exists>budget. map_of (limit_order_max t) m = Some budget \<and>
          0 < min (of_int (py_int (of_int (quantity mat) * efficiency E))) budget))"
  proof (cases "limit_sell E sd")
    case True
    with assms sd mat obtain budget where b: "map_of (limit_order_max t) m = Some budget"
      by (auto simp: sell_material_def lookup_def split: option.splits)
    show ?thesis
    proof (cases "0 < min (of_int (py_int (of_int (quantity mat) * efficiency E))) budget")
      case amount: True
      with True assms sd mat b have "\<exists>ask. sold = [\<lparr>rec_price = ask,
          rec_volume = min (of_int (py_int (of_int (quantity mat) * efficiency E))) budget,
          market = False\<rparr>]"
        by (auto simp: sell_material_def lookup_def split: option.splits)
      with True amount b show ?thesis by (auto simp: limit_sell_def)
    next
      case amount: False
      with True assms sd mat b have "sold = []"
        by (auto simp: sell_material_def lookup_def split: option.splits)
      with amount b show ?thesis by simp
    qed
  next
    case False
    with assms sd mat have "\<forall>x\<in>set sold. market x"
      by (auto simp: sell_material_def lookup_def split: option.splits prod.splits
          dest: attempt_sell_market)
    moreover have "sold \<noteq> [] \<Longrightarrow> hd sold \<in> set sold" by simp
    ultimately have "\<not> (sold \<noteq> [] \<and> (\<forall>x\<in>set sold. \<not> market x))" by blast
    with False show ?thesis by (simp add: limit_sell_def)
  qed
  with sd mat fl show ?thesis by blast
qed

text \<open>
  C4, as amended.  The attempt is prepared from the store \<^term>\<open>h\<close>; a pass of its \<^verbatim>\<open>while\<close>
  loop starts in the state \<^term>\<open>st\<close> and buys the source; its loop over the refined
  materials comes to the material \<^term>\<open>m\<close> in the state \<^term>\<open>t\<close>, and the sale of the material
  raises no error.  Then the spread data read for the material is the one stored before
  the loop, which is the value of \<^verbatim>\<open>spread_return\<close> for the snapshot and the material,
  and the threshold is \<^verbatim>\<open>broker_fee / (1 - tax_rate - broker_fee)\<close>.  The material is sold
  by limit order exactly when its spread return is above the threshold and its limit
  volume, the smaller of the volume to sell and the remaining limit budget, is positive;
  every order record of the sale is a limit order when the spread return is above the
  threshold and a market order otherwise.  For a tax rate of 0.01 and a broker fee of
  0.025 the threshold is 5/193, about 0.0259, and a spread return of 0.05 is above it.
\<close>

theorem limit_mode_rule:
  assumes "prepare cr snapshot tid rid sid tmap tax eff stax fee ms vlimit h = Inr (E, st0)"
    and "round_start E st0 st"
    and "attempt_buy_type_list (required_volume E) (sell_order_list st) (heap st) = (bought, h1)"
    and "length bought \<noteq> 0"
    and "sale_start E (map fst (buy_order_map st)) (st\<lparr>heap := h1\<rparr>) m t"
    and "sell_material E m t = Inr (by_limit, sold, t')"
  shows "limit_threshold E = fee / (1 - tax - fee) \<and>
         rounds E st0 = rounds E st \<and>
         (\<exists>rest so cg cc.
            sell_materials E (map fst (buy_order_map st)) [] 0 (order_value bought) (st\<lparr>heap := h1\<rparr>)
              = sell_materials E (m # rest) so cg cc t) \<and>
         (\<exists>sd mat.
            map_of (spread_data t) m = Some sd \<and>
            map_of (spread_data st0) m = Some sd \<and>
            (\<forall>h0. map_sum id fst (spread_return cr snapshot m sid rid h0) = Inr sd) \<and>
            map_of (materials E) m = Some mat \<and>
            by_limit = (fee / (1 - tax - fee) < sr_value sd) \<and>
            (sold \<noteq> [] \<and> (\<forall>x\<in>set sold. \<not> market x)) =
              (fee / (1 - tax - fee) < sr_value sd \<and>
               (\<exists>budget. map_of (limit_order_max t) m = Some budget \<and>
                  0 < min (of_int (py_int (of_int (quantity mat) * eff))) budget))) \<and>
         (\<forall>x\<in>set sold. market x = (\<not> by_limit)) \<and>
         spread_data t' = spread_data st0 \<and>
         compute_threshold (1/100) (1/40) = Inr (5/193) \<and> (5/193 :: rat) < 1/20"
proof -
  note th = prepare_threshold[OF assms(1)]
  note env = prepare_env[OF assms(1)]
  have sp: "spread_data t = spread_data st0"
    using sale_start_spread[OF assms(5)] round_start_spread[OF assms(2)] by simp
  from sell_material_limit[OF assms(6)] obtain sd mat where
    sd: "map_of (spread_data t) m = Some sd" and mat: "map_of (materials E) m = Some mat"
    and fl: "by_limit = (limit_threshold E < sr_value sd)"
    and li: "(sold \<noteq> [] \<and> (\<forall>x\<in>set sold. \<not> market x)) =
      (limit_threshold E < sr_value sd \<and>
       (\<exists>budget. map_of (limit_order_max t) m = Some budget \<and>
          0 < min (of_int (py_int (of_int (quantity mat) * efficiency E))) budget))"
    by blast
  from sd sp have sd0: "map_of (spread_data st0) m = Some sd" by simp
  have pr: "\<forall>h0. map_sum id fst (spread_return cr snapshot m sid rid h0) = Inr sd"
    using prepare_spread[OF assms(1) sd0] by blast
  have a: "\<exists>sd mat.
            map_of (spread_data t) m = Some sd \<and>
            map_of (spread_data st0) m = Some sd \<and>
            (\<forall>h0. map_sum id fst (spread_return cr snapshot m sid rid h0) = Inr sd) \<and>
            map_of (materials E) m = Some mat \<and>
            by_limit = (fee / (1 - tax - fee) < sr_value sd) \<and>
            (sold \<noteq> [] \<and> (\<forall>x\<in>set sold. \<not> market x)) =
              (fee / (1 - tax - fee) < sr_value sd \<and>
               (\<exists>budget. map_of (limit_order_max t) m = Some budget \<and>
                  0 < min (of_int (py_int (of_int (quantity mat) * eff))) budget))"
    using sd sd0 pr mat fl li th env by auto
  have b: "\<forall>x\<in>set sold. market x = (\<not> by_limit)"
    by (rule sell_material_mode(2)[OF assms(6)])
  have c: "spread_data t' = spread_data st0"
    using sell_material_spread[OF assms(6)] sp by simp
  have d: "compute_threshold (1/100) (1/40) = Inr (5/193)" "(5/193 :: rat) < 1/20"
    by (simp_all add: compute_threshold_def)
  from th have e: "limit_threshold E = fee / (1 - tax - fee)" by simp
  show ?thesis
    by (intro conjI e round_start_rounds[OF assms(2)] sale_start_loop[OF assms(5)] a b c d)
qed

lemma ex_buy:
  "attempt_buy_type_list (required_volume ex_env) (sell_order_list ex_state) (heap ex_state)
     = (ex_bought, heap ex_bought_state)"
  by (simp add: ex_eval ex_bought_state_def)

lemma ex_sell_material:
  "sell_material ex_env 2 ex_bought_state =
     Inr (True, [\<lparr>rec_price = 105, rec_volume = 288, market = False\<rparr>], ex_traded_state)"
  by (simp add: sell_material_def lookup_def ex_env_def ex_state_def ex_bought_state_def
      ex_traded_state_def limit_sell_def py_int_def floor_unique)

lemma ex_spread_return:
  "map_sum id fst (spread_return always_in_range ex_snapshot 2 7 3 []) =
     Inr \<lparr>sr_value = 1 / 20, best_bid = Some 100, best_ask = Some 105\<rparr>"
  by (simp add: spread_return_def extract_sell_orders_def extract_buy_orders_def sell_side_def
      buy_side_def allocate_def ex_snapshot_def always_in_range_def upt_rec)

theorem limit_mode_rule_witness:
  "prepare always_in_range ex_snapshot 1 3 7 ex_types (1/100) (2783/4000) (1/25) (1/40)
     ex_summary (1/100) [] = Inr (ex_env, ex_state) \<and>
   round_start ex_env ex_state ex_state \<and>
   attempt_buy_type_list (required_volume ex_env) (sell_order_list ex_state) (heap ex_state)
     = (ex_bought, heap ex_bought_state) \<and>
   length ex_bought \<noteq> 0 \<and>
   sale_start ex_env (map fst (buy_order_map ex_state))
     (ex_state\<lparr>heap := heap ex_bought_state\<rparr>) 2 ex_bought_state \<and>
   sell_material ex_env 2 ex_bought_state =
     Inr (True, [\<lparr>rec_price = 105, rec_volume = 288, market = False\<rparr>], ex_traded_state) \<and>
   limit_threshold ex_env = (1/40) / (1 - 1/100 - 1/40) \<and>
   map_of (spread_data ex_bought_state) 2 =
     Some \<lparr>sr_value = 1 / 20, best_bid = Some 100, best_ask = Some 105\<rparr> \<and>
   map_sum id fst (spread_return always_in_range ex_snapshot 2 7 3 []) =
     Inr \<lparr>sr_value = 1 / 20, best_bid = Some 100, best_ask = Some 105\<rparr> \<and>
   (1/40) / (1 - 1/100 - 1/40) < (1 / 20 :: rat) \<and>
   map_of (limit_order_max ex_bought_state) 2 = Some 10000 \<and>
   (0 :: rat) < min (of_int (py_int (of_int 415 * (2783/4000)))) 10000 \<and>
   spread_data ex_traded_state = spread_data ex_state"
proof -
  have r: "round_start ex_env ex_state ex_state" by (rule round_start.entered)
  have n: "length ex_bought \<noteq> 0" by (simp add: ex_bought_def)
  have k: "map fst (buy_order_map ex_state) = [2]" by (simp add: ex_state_def)
  have st: "ex_state\<lparr>heap := heap ex_bought_state\<rparr> = ex_bought_state"
    by (simp add: ex_bought_state_def)
  have s: "sale_start ex_env (map fst (buy_order_map ex_state))
     (ex_state\<lparr>heap := heap ex_bought_state\<rparr>) 2 ex_bought_state"
    unfolding k st by (rule sale_start.reached)
  note i = limit_mode_rule[OF ex_prepare r ex_buy n s ex_sell_material]
  have t: "limit_threshold ex_env = (1/40) / (1 - 1/100 - 1/40)"
    using i by blast
  have c: "spread_data ex_traded_state = spread_data ex_state"
    using i by blast
  have d: "map_of (spread_data ex_bought_state) 2 =
     Some \<lparr>sr_value = 1 / 20, best_bid = Some 100, best_ask = Some 105\<rparr>"
    by (simp add: ex_bought_state_def ex_state_def)
  have l: "map_of (limit_order_max ex_bought_state) 2 = Some 10000"
    by (simp add: ex_bought_state_def ex_state_def)
  have a: "(0 :: rat) < min (of_int (py_int (of_int 415 * (2783/4000)))) 10000"
    by (simp add: py_int_def floor_unique)
  have v: "(1/40) / (1 - 1/100 - 1/40) < (1 / 20 :: rat)" by simp
  show ?thesis
    by (intro conjI ex_prepare r ex_buy n s ex_sell_material t d ex_spread_return v l a c)
qed

text \<open>
  The threshold for a tax rate of 0.01 and a broker fee of 0.025 is 5/193; to four
  decimal places that is not 0.0256.  And a spread return above the threshold does not
  make a sale: with a market summary volume of 0 the limit budget of the material is 0,
  the spread return 0.05 is above the threshold, and in the first round nothing of the
  material is sold, by limit order or otherwise; the attempt returns \<^verbatim>\<open>None\<close>.
\<close>

lemma ex_dry_prepare:
  "prepare always_in_range ex_snapshot 1 3 7 ex_types (1/100) (2783/4000) (1/25) (1/40)
     ex_dry_summary (1/100) [] = Inr (ex_env, ex_dry_state)"
  by (simp add: prepare_def compute_threshold_def lookup_def ex_types_def ex_source_def
      extract_sell_orders_def extract_buy_orders_def sell_side_def buy_side_def allocate_def ex_snapshot_def
      summary_volume_def ex_dry_summary_def spread_return_def always_in_range_def
      ex_env_def ex_state_def ex_dry_state_def upt_rec)

lemma ex_dry_buy:
  "attempt_buy_type_list (required_volume ex_env) (sell_order_list ex_dry_state) (heap ex_dry_state)
     = (ex_bought, heap ex_dry_bought_state)"
  by (simp add: ex_eval ex_dry_state_def ex_dry_bought_state_def)

lemma ex_dry_sell_material:
  "sell_material ex_env 2 ex_dry_bought_state = Inr (True, [], ex_dry_bought_state)"
  by (simp add: sell_material_def lookup_def ex_env_def ex_state_def ex_dry_state_def
      ex_dry_bought_state_def limit_sell_def py_int_def floor_unique)

lemma ex_dry_round: "one_round ex_env ex_dry_state = Inr (Stop ex_dry_bought_state)"
  by (simp add: ex_eval ex_dry_state_def ex_dry_bought_state_def)

lemma ex_dry_attempt:
  "attempt_opportunity always_in_range ex_snapshot 1 3 7 ex_types (1/100) (2783/4000) (1/25) (1/40)
     ex_dry_summary (1/100) [] = Some (Inr (None, heap ex_dry_bought_state))"
proof -
  have "rounds ex_env ex_dry_state = Some (Inr ex_dry_bought_state)"
    by (subst rounds.simps) (simp add: ex_dry_round)
  moreover have "report ex_dry_bought_state = None"
    by (simp add: report_def ex_dry_bought_state_def ex_dry_state_def ex_state_def)
  ultimately show ?thesis
    unfolding attempt_opportunity_def ex_dry_prepare by simp
qed

theorem limit_mode_counterexample:
  "compute_threshold (1/100) (1/40) = Inr (5/193) \<and>
   \<not> \<bar>5/193 - 256/10000\<bar> < (1/20000 :: rat) \<and>
   prepare always_in_range ex_snapshot 1 3 7 ex_types (1/100) (2783/4000) (1/25) (1/40)
     ex_dry_summary (1/100) [] = Inr (ex_env, ex_dry_state) \<and>
   round_start ex_env ex_dry_state ex_dry_state \<and>
   attempt_buy_type_list (required_volume ex_env) (sell_order_list ex_dry_state) (heap ex_dry_state)
     = (ex_bought, heap ex_dry_bought_state) \<and>
   length ex_bought \<noteq> 0 \<and>
   sale_start ex_env (map fst (buy_order_map ex_dry_state))
     (ex_dry_state\<lparr>heap := heap ex_dry_bought_state\<rparr>) 2 ex_dry_bought_state \<and>
   map_sum id fst (spread_return always_in_range ex_snapshot 2 7 3 []) =
     Inr \<lparr>sr_value = 1 / 20, best_bid = Some 100, best_ask = Some 105\<rparr> \<and>
   map_of (spread_data ex_dry_bought_state) 2 =
     Some \<lparr>sr_value = 1 / 20, best_bid = Some 100, best_ask = Some 105\<rparr> \<and>
   limit_threshold ex_env < 1 / 20 \<and>
   sell_material ex_env 2 ex_dry_bought_state = Inr (True, [], ex_dry_bought_state) \<and>
   one_round ex_env ex_dry_state = Inr (Stop ex_dry_bought_state) \<and>
   attempt_opportunity always_in_range ex_snapshot 1 3 7 ex_types (1/100) (2783/4000) (1/25) (1/40)
     ex_dry_summary (1/100) [] = Some (Inr (None, heap ex_dry_bought_state))"
proof -
  have a: "compute_threshold (1/100) (1/40) = Inr (5/193)"
    "\<not> \<bar>5/193 - 256/10000\<bar> < (1/20000 :: rat)"
    by (simp_all add: compute_threshold_def)
  have r: "round_start ex_env ex_dry_state ex_dry_state" by (rule round_start.entered)
  have n: "length ex_bought \<noteq> 0" by (simp add: ex_bought_def)
  have k: "map fst (buy_order_map ex_dry_state) = [2]" by (simp add: ex_dry_state_def ex_state_def)
  have st: "ex_dry_state\<lparr>heap := heap ex_dry_bought_state\<rparr> = ex_dry_bought_state"
    by (simp add: ex_dry_bought_state_def)
  have s: "sale_start ex_env (map fst (buy_order_map ex_dry_state))
     (ex_dry_state\<lparr>heap := heap ex_dry_bought_state\<rparr>) 2 ex_dry_bought_state"
    unfolding k st by (rule sale_start.reached)
  have d: "map_of (spread_data ex_dry_bought_state) 2 =
     Some \<lparr>sr_value = 1 / 20, best_bid = Some 100, best_ask = Some 105\<rparr>"
    by (simp add: ex_dry_bought_state_def ex_dry_state_def ex_state_def)
  have t: "limit_threshold ex_env < 1 / 20" by (simp add: ex_env_def)
  show ?thesis
    by (intro conjI a ex_dry_prepare r ex_dry_buy n s ex_spread_return d t ex_dry_sell_material
        ex_dry_round ex_dry_attempt)
qed

section \<open>The scanner is repeatable\<close>

text \<open>
  C7: the scanner is repeatable.  What \<^verbatim>\<open>find_opportunities\<close> returns does not depend
  on the store it starts from; a run leaves every object that was there before as it
  was, and a second run on the store the first run leaves returns the same list.  The
  same holds for a single \<^verbatim>\<open>attempt_opportunity\<close>: the order objects it consumes are
  its own.  When every portion size is positive, the scan ends.
\<close>

theorem scanner_repeatable:
  "map_option (map_sum id fst)
     (find_opportunities cr book tmap sid rid eff tax stax fee ms vlimit h1) =
   map_option (map_sum id fst)
     (find_opportunities cr book tmap sid rid eff tax stax fee ms vlimit h2) \<and>
   (find_opportunities cr book tmap sid rid eff tax stax fee ms vlimit h1 = Some (Inr (opps, g)) \<longrightarrow>
      take (length h1) g = h1 \<and>
      (\<exists>g'. find_opportunities cr book tmap sid rid eff tax stax fee ms vlimit g
              = Some (Inr (opps, g')))) \<and>
   map_option (map_sum id fst)
     (attempt_opportunity cr snapshot tid rid sid tmap tax eff stax fee ms vlimit h1) =
   map_option (map_sum id fst)
     (attempt_opportunity cr snapshot tid rid sid tmap tax eff stax fee ms vlimit h2) \<and>
   (attempt_opportunity cr snapshot tid rid sid tmap tax eff stax fee ms vlimit h1
      = Some (Inr (r, k)) \<longrightarrow> take (length h1) k = h1) \<and>
   ((\<forall>src\<in>set (map snd tmap). 0 < portionSize src) \<longrightarrow>
      (\<exists>res. find_opportunities cr book tmap sid rid eff tax stax fee ms vlimit h1 = Some res))"
proof (intro conjI impI)
  show v: "map_option (map_sum id fst)
     (find_opportunities cr book tmap sid rid eff tax stax fee ms vlimit h1) =
   map_option (map_sum id fst)
     (find_opportunities cr book tmap sid rid eff tax stax fee ms vlimit h2)" for h1 h2
    unfolding find_opportunities_def by (rule scan_snapshots_value) (rule attempt_value)
  {
    assume f: "find_opportunities cr book tmap sid rid eff tax stax fee ms vlimit h1
        = Some (Inr (opps, g))"
    then have "\<exists>ext. g = h1 @ ext"
      unfolding find_opportunities_def by (rule scan_snapshots_grows[rotated]) (rule attempt_frame)
    then show "take (length h1) g = h1" by auto
    from v[of h1 g] f
    show "\<exists>g'. find_opportunities cr book tmap sid rid eff tax stax fee ms vlimit g
              = Some (Inr (opps, g'))"
      by (cases "find_opportunities cr book tmap sid rid eff tax stax fee ms vlimit g")
         (auto simp: map_sum_def split: sum.splits)
  }
  show "map_option (map_sum id fst)
     (attempt_opportunity cr snapshot tid rid sid tmap tax eff stax fee ms vlimit h1) =
   map_option (map_sum id fst)
     (attempt_opportunity cr snapshot tid rid sid tmap tax eff stax fee ms vlimit h2)"
    by (rule attempt_value)
  {
    assume "attempt_opportunity cr snapshot tid rid sid tmap tax eff stax fee ms vlimit h1
      = Some (Inr (r, k))"
    from attempt_frame[OF this] show "take (length h1) k = h1" by auto
  }
  {
    assume "\<forall>src\<in>set (map snd tmap). 0 < portionSize src"
    then show "\<exists>res. find_opportunities cr book tmap sid rid eff tax stax fee ms vlimit h1 = Some res"
      by (rule find_opportunities_returns)
  }
qed

theorem scanner_repeatable_witness:
  "list_all (\<lambda>src. 0 < portionSize src) (map snd ex_types) \<and>
   find_opportunities always_in_range [(0, ex_snapshot)] ex_types 7 3 (2783/4000) (1/100) (1/25)
     (1/40) ex_summary (1/100) []
     = Some (Inr ([tag ex_opportunity 0 ''Veldspar''], heap ex_final_state)) \<and>
   take (length ([] :: store)) (heap ex_final_state) = [] \<and>
   map_option (map_sum id fst)
     (find_opportunities always_in_range [(0, ex_snapshot)] ex_types 7 3 (2783/4000) (1/100) (1/25)
        (1/40) ex_summary (1/100) (heap ex_final_state))
     = Some (Inr [tag ex_opportunity 0 ''Veldspar'']) \<and>
   attempt_opportunity always_in_range ex_snapshot 1 3 7 ex_types (1/100) (2783/4000) (1/25) (1/40)
     ex_summary (1/100) [] = Some (Inr (Some ex_opportunity, heap ex_final_state)) \<and>
   map_option (map_sum id fst)
     (attempt_opportunity always_in_range ex_snapshot 1 3 7 ex_types (1/100) (2783/4000) (1/25)
        (1/40) ex_summary (1/100) (heap ex_final_state))
     = Some (Inr (Some ex_opportunity))"
proof -
  have f: "find_opportunities always_in_range [(0, ex_snapshot)] ex_types 7 3 (2783/4000) (1/100)
     (1/25) (1/40) ex_summary (1/100) []
     = Some (Inr ([tag ex_opportunity 0 ''Veldspar''], heap ex_final_state))"
    using ex_attempt by (simp add: find_opportunities_def ex_types_def ex_source_def)
  note t = scanner_repeatable[of always_in_range "[(0, ex_snapshot)]" ex_types 7 3 "2783/4000"
      "1/100" "1/25" "1/40" ex_summary "1/100" "[]" "heap ex_final_state"
      "[tag ex_opportunity 0 ''Veldspar'']" "heap ex_final_state" ex_snapshot 1
      "Some ex_opportunity" "heap ex_final_state"]
  from t f have g: "map_option (map_sum id fst)
     (find_opportunities always_in_range [(0, ex_snapshot)] ex_types 7 3 (2783/4000) (1/100) (1/25)
        (1/40) ex_summary (1/100) (heap ex_final_state))
     = Some (Inr [tag ex_opportunity 0 ''Veldspar''])" by simp
  from t ex_attempt have a: "map_option (map_sum id fst)
     (attempt_opportunity always_in_range ex_snapshot 1 3 7 ex_types (1/100) (2783/4000) (1/25)
        (1/40) ex_summary (1/100) (heap ex_final_state))
     = Some (Inr (Some ex_opportunity))" by simp
  have p: "list_all (\<lambda>src. 0 < portionSize src) (map snd ex_types)"
    by (simp add: ex_types_def ex_source_def)
  show ?thesis using p f g a ex_attempt by simp
qed

section \<open>What an attempt returns\<close>

text \<open>
  C2: a returned opportunity has \<^verbatim>\<open>profit = gross - cost\<close>, its margin is the quotient
  of profit and cost, and its gross is above its cost.  The gross and the cost of the
  opportunity are the totals the loop ends with; when these totals have a gross not above
  the cost the result is \<^verbatim>\<open>None\<close>, and so it is when no round was committed.  When every
  portion size is positive the attempt ends, with a result or an error.
\<close>

theorem opportunity_invariant:
  "(attempt_opportunity cr snapshot tid rid sid tmap tax eff stax fee ms vlimit h
       = Some (Inr (Some opp, h')) \<longrightarrow>
      profit opp = gross opp - cost opp \<and>
      margin opp = np_divide (profit opp) (cost opp) \<and>
      (cost opp \<noteq> 0 \<longrightarrow> margin opp = Some (profit opp / cost opp)) \<and>
      cost opp < gross opp) \<and>
   (prepare cr snapshot tid rid sid tmap tax eff stax fee ms vlimit h = Inr (E, st0) \<longrightarrow>
    rounds E st0 = Some (Inr st) \<longrightarrow>
      attempt_opportunity cr snapshot tid rid sid tmap tax eff stax fee ms vlimit h
        = Some (Inr (report st, heap st)) \<and>
      (report st = None) = (gross_acc st \<le> cost_acc st) \<and>
      (\<forall>emitted. report st = Some emitted \<longrightarrow>
         gross emitted = gross_acc st \<and> cost emitted = cost_acc st) \<and>
      (all_buy_orders st = [] \<longrightarrow> report st = None)) \<and>
   ((\<forall>src\<in>set (map snd tmap). 0 < portionSize src) \<longrightarrow>
      (\<exists>res. attempt_opportunity cr snapshot tid rid sid tmap tax eff stax fee ms vlimit h
               = Some res))"
proof (intro conjI impI)
  assume a: "attempt_opportunity cr snapshot tid rid sid tmap tax eff stax fee ms vlimit h
       = Some (Inr (Some opp, h'))"
  then obtain st where "report st = Some opp"
    by (auto simp: attempt_opportunity_def split: sum.splits prod.splits option.splits)
  from report_Some[OF this]
  show "profit opp = gross opp - cost opp" "margin opp = np_divide (profit opp) (cost opp)"
    "cost opp < gross opp" by simp_all
  then show "margin opp = Some (profit opp / cost opp)" if "cost opp \<noteq> 0"
    using that by (simp add: np_divide_def)
next
  assume p: "prepare cr snapshot tid rid sid tmap tax eff stax fee ms vlimit h = Inr (E, st0)"
    and r: "rounds E st0 = Some (Inr st)"
  show "attempt_opportunity cr snapshot tid rid sid tmap tax eff stax fee ms vlimit h
        = Some (Inr (report st, heap st))"
    using p r by (simp add: attempt_opportunity_def)
  show "(report st = None) = (gross_acc st \<le> cost_acc st)" by (rule report_None)
  show "\<forall>emitted. report st = Some emitted \<longrightarrow>
         gross emitted = gross_acc st \<and> cost emitted = cost_acc st"
    using report_Some by blast
  show "report st = None" if "all_buy_orders st = []"
    using that rounds_totals[OF r] prepare_initial[OF p]
    by (auto simp: report_None round_progress_def unchanged_totals_def)
next
  assume "\<forall>src\<in>set (map snd tmap). 0 < portionSize src"
  then show "\<exists>res. attempt_opportunity cr snapshot tid rid sid tmap tax eff stax fee ms vlimit h
               = Some res"
    by (rule attempt_returns)
qed

theorem opportunity_invariant_witness:
  "attempt_opportunity always_in_range ex_snapshot 1 3 7 ex_types (1/100) (2783/4000) (1/25) (1/40)
     ex_summary (1/100) [] = Some (Inr (Some ex_opportunity, heap ex_final_state)) \<and>
   profit ex_opportunity = gross ex_opportunity - cost ex_opportunity \<and>
   cost ex_opportunity \<noteq> 0 \<and>
   margin ex_opportunity = Some (profit ex_opportunity / cost ex_opportunity) \<and>
   cost ex_opportunity < gross ex_opportunity \<and>
   gross ex_opportunity = gross_acc ex_final_state \<and>
   cost ex_opportunity = cost_acc ex_final_state \<and>
   prepare always_in_range ex_dear_snapshot 1 3 7 ex_types (1/100) (2783/4000) (1/25) (1/40)
     ex_summary (1/100) [] = Inr (ex_env, ex_dear_state) \<and>
   rounds ex_env ex_dear_state = Some (Inr ex_dear_traded_state) \<and>
   attempt_opportunity always_in_range ex_dear_snapshot 1 3 7 ex_types (1/100) (2783/4000) (1/25)
     (1/40) ex_summary (1/100) [] = Some (Inr (None, heap ex_dear_traded_state)) \<and>
   gross_acc ex_dear_traded_state \<le> cost_acc ex_dear_traded_state \<and>
   all_buy_orders ex_dear_traded_state = [] \<and>
   report ex_dear_traded_state = None \<and>
   list_all (\<lambda>src. 0 < portionSize src) (map snd ex_types)"
proof -
  note a = ex_attempt
  have c: "cost ex_opportunity \<noteq> 0" by (simp add: ex_opportunity_def)
  have d: "attempt_opportunity always_in_range ex_dear_snapshot 1 3 7 ex_types (1/100) (2783/4000)
     (1/25) (1/40) ex_summary (1/100) [] = Some (Inr (None, heap ex_dear_traded_state))"
    unfolding attempt_opportunity_def ex_dear_prepare by (simp add: ex_dear_rounds ex_dear_report)
  from a opportunity_invariant[of always_in_range ex_snapshot 1 3 7 ex_types "1/100" "2783/4000"
        "1/25" "1/40" ex_summary "1/100" "[]" ex_opportunity "heap ex_final_state"
        ex_env ex_state ex_final_state]
  have i: "profit ex_opportunity = gross ex_opportunity - cost ex_opportunity"
    "cost ex_opportunity \<noteq> 0 \<longrightarrow>
       margin ex_opportunity = Some (profit ex_opportunity / cost ex_opportunity)"
    "cost ex_opportunity < gross ex_opportunity"
    by blast+
  from ex_prepare ex_rounds ex_report
    opportunity_invariant[of always_in_range ex_snapshot 1 3 7 ex_types "1/100" "2783/4000"
        "1/25" "1/40" ex_summary "1/100" "[]" ex_opportunity "heap ex_final_state"
        ex_env ex_state ex_final_state]
  have g: "gross ex_opportunity = gross_acc ex_final_state"
    "cost ex_opportunity = cost_acc ex_final_state"
    by blast+
  have e: "all_buy_orders ex_dear_traded_state = []"
    by (simp add: ex_dear_traded_state_def ex_state_def)
  from ex_dear_prepare ex_dear_rounds
    opportunity_invariant[of always_in_range ex_dear_snapshot 1 3 7 ex_types "1/100" "2783/4000"
        "1/25" "1/40" ex_summary "1/100" "[]" ex_opportunity "heap ex_final_state"
        ex_env ex_dear_state ex_dear_traded_state]
  have j: "(report ex_dear_traded_state = None) =
        (gross_acc ex_dear_traded_state \<le> cost_acc ex_dear_traded_state)"
    "all_buy_orders ex_dear_traded_state = [] \<longrightarrow> report ex_dear_traded_state = None"
    by blast+
  from i(2) c have m: "margin ex_opportunity = Some (profit ex_opportunity / cost ex_opportunity)"
    by blast
  from j e have n: "report ex_dear_traded_state = None" by blast
  from j(1) n have k: "gross_acc ex_dear_traded_state \<le> cost_acc ex_dear_traded_state" by blast
  have p: "list_all (\<lambda>src. 0 < portionSize src) (map snd ex_types)"
    by (simp add: ex_types_def ex_source_def)
  show ?thesis
    by (intro conjI a i(1) c m i(3) g ex_dear_prepare ex_dear_rounds d k e n p)
qed

end
